theory Spec2Isabelle
  imports Main "HOL-Library.Word"
begin

section \<open>The object pool of tdutils/td/utils/ObjectPool.h\<close>

text \<open>
  A shallow embedding of \<^verbatim>\<open>td::ObjectPool<DataT>\<close> for one thread of execution.

  \<^item> A \<^verbatim>\<open>Storage *\<close> is \<open>nat option\<close>: \<open>None\<close> is \<^verbatim>\<open>nullptr\<close>, \<open>Some a\<close> is the
    address of the \<open>a\<close>-th \<^verbatim>\<open>Storage\<close> object ever allocated. Every
    \<^verbatim>\<open>new Storage[CHUNK_SIZE]\<close> appends \<open>CHUNK_SIZE\<close> objects to the list \<open>heap\<close>, so
    a chunk is a run of consecutive addresses and \<^verbatim>\<open>&chunk[i]\<close> is \<open>chunk + i\<close>.
  \<^item> \<^verbatim>\<open>int32\<close> and \<^verbatim>\<open>std::atomic<int32>\<close> are \<open>32 word\<close>: \<^verbatim>\<open>fetch_add\<close> wraps
    around in two's complement, \<open>sint\<close> reads the signed value.
  \<^item> \<^verbatim>\<open>DataT\<close> is a type parameter \<open>'d\<close>. Its default constructor is a value
    \<open>dflt\<close>, its \<^verbatim>\<open>clear()\<close> a function \<open>clr\<close>, and the value built by
    \<^verbatim>\<open>DataT(args...)\<close> is passed to \<open>create\<close> as it is.
  \<^item> Dereferencing \<^verbatim>\<open>nullptr\<close> or an address outside \<open>heap\<close> is undefined in C++;
    the model returns an \<open>error\<close> there.
  \<^item> \<^verbatim>\<open>compare_exchange_weak\<close> may fail spuriously even without contention. The
    field \<open>weak_cas_failures\<close> is the environment's answer for each coming attempt
    (\<open>True\<close>: this attempt fails); every attempt consumes one answer, and an exhausted
    list means no further spurious failure. With one thread the compared value is
    always the value just loaded.
  \<^item> \<open>retire_log\<close> is a ghost field: \<open>destroy_data\<close> and \<open>release_storage\<close> append to
    it each step they perform, in program order.
  \<^item> Isabelle names cannot end in an underscore: the members \<^verbatim>\<open>head_\<close>,
    \<^verbatim>\<open>chunk_list_\<close>, \<^verbatim>\<open>storage_count_\<close>, \<^verbatim>\<open>check_empty_flag_\<close>, \<^verbatim>\<open>storage_\<close> and
    \<^verbatim>\<open>parent_\<close> lose it, and the members of \<^verbatim>\<open>WeakPtr\<close> are \<open>w_generation\<close> and
    \<open>w_storage\<close>. \<^verbatim>\<open>Storage::next\<close> is \<open>next_ptr\<close>.
  \<^item> \<^verbatim>\<open>likely\<close> and \<^verbatim>\<open>unlikely\<close> (td/utils/common.h) are branch hints and
    leave the condition as it is.
\<close>

type_synonym int32 = "32 word"

datatype error = Null_dereference | Invalid_pointer | Use_after_free

datatype event = Generation_fetch_add nat | Fence_release | Data_clear nat | Free_list_push nat

record 'd Storage =
  data :: 'd
  next_ptr :: "nat option"
  generation :: int32

record WeakPtr =
  w_generation :: int32
  w_storage :: "nat option"

record OwnerPtr =
  storage :: "nat option"
  parent :: "unit option"

record 'd ObjectPool =
  heap :: "'d Storage list"
  storage_count :: int32
  head :: "nat option"
  check_empty_flag :: bool
  chunk_list :: "nat option"
  weak_cas_failures :: "bool list"
  retire_log :: "event list"

definition CHUNK_SIZE :: nat where
  "CHUNK_SIZE = 64"

text \<open>\<^verbatim>\<open>Storage()\<close>: \<^verbatim>\<open>next = nullptr\<close>, \<^verbatim>\<open>generation{1}\<close>, default-constructed data.\<close>

definition Storage_default :: "'d \<Rightarrow> 'd Storage" where
  "Storage_default dflt = \<lparr>data = dflt, next_ptr = None, generation = 1\<rparr>"

text \<open>\<^verbatim>\<open>ObjectPool() = default\<close> with the member initialisers of lines 229-232.\<close>

definition new_pool :: "bool list \<Rightarrow> 'd ObjectPool" where
  "new_pool fs = \<lparr>heap = [], storage_count = 0, head = None, check_empty_flag = False,
     chunk_list = None, weak_cas_failures = fs, retire_log = []\<rparr>"

subsection \<open>Memory and the weak compare-and-swap\<close>

definition valid_ptr :: "'d ObjectPool \<Rightarrow> nat \<Rightarrow> bool" where
  "valid_ptr s a = (a < length (heap s))"

text \<open>\<^verbatim>\<open>p->next = q\<close>\<close>

definition set_next :: "nat \<Rightarrow> nat option \<Rightarrow> 'd ObjectPool \<Rightarrow> 'd ObjectPool" where
  "set_next a q s = s\<lparr>heap := (heap s)[a := (heap s ! a)\<lparr>next_ptr := q\<rparr>]\<rparr>"

definition cas_spurious :: "'d ObjectPool \<Rightarrow> bool" where
  "cas_spurious s = (case weak_cas_failures s of [] \<Rightarrow> False | f # fs \<Rightarrow> f)"

definition cas_tick :: "'d ObjectPool \<Rightarrow> 'd ObjectPool" where
  "cas_tick s = s\<lparr>weak_cas_failures := tl (weak_cas_failures s)\<rparr>"

text \<open>\<open>log_event\<close> appends to the ghost log.\<close>

definition log_event :: "event \<Rightarrow> 'd ObjectPool \<Rightarrow> 'd ObjectPool" where
  "log_event e s = s\<lparr>retire_log := retire_log s @ [e]\<rparr>"

text \<open>Sequencing of fallible steps.\<close>

definition and_then :: "error + 'a \<Rightarrow> ('a \<Rightarrow> error + 'b) \<Rightarrow> error + 'b" where
  "and_then m f = (case m of Inl e \<Rightarrow> Inl e | Inr x \<Rightarrow> f x)"

subsection \<open>WeakPtr (lines 40-92)\<close>

definition WeakPtr_default :: WeakPtr where
  "WeakPtr_default = \<lparr>w_generation = - 1, w_storage = None\<rparr>"

definition WeakPtr_deref :: "WeakPtr \<Rightarrow> 'd ObjectPool \<Rightarrow> error + 'd" where
  "WeakPtr_deref w s =
     (case w_storage w of
        None \<Rightarrow> Inl Null_dereference
      | Some a \<Rightarrow> if valid_ptr s a then Inr (data (heap s ! a)) else Inl Invalid_pointer)"

text \<open>
  \<^verbatim>\<open>is_alive\<close> (lines 62-68) issues an acquire fence before it compares;
  \<^verbatim>\<open>is_alive_unsafe\<close> (lines 71-76) does not. With one thread the fence changes no
  value.
\<close>

definition is_alive :: "WeakPtr \<Rightarrow> 'd ObjectPool \<Rightarrow> error + bool" where
  "is_alive w s =
     (case w_storage w of
        None \<Rightarrow> Inr False
      | Some a \<Rightarrow>
          if valid_ptr s a then Inr (w_generation w = generation (heap s ! a))
          else Inl Invalid_pointer)"

definition is_alive_unsafe :: "WeakPtr \<Rightarrow> 'd ObjectPool \<Rightarrow> error + bool" where
  "is_alive_unsafe w s =
     (case w_storage w of
        None \<Rightarrow> Inr False
      | Some a \<Rightarrow>
          if valid_ptr s a then Inr (w_generation w = generation (heap s ! a))
          else Inl Invalid_pointer)"

definition WeakPtr_empty :: "WeakPtr \<Rightarrow> bool" where
  "WeakPtr_empty w = (w_storage w = None)"

definition WeakPtr_clear :: "WeakPtr \<Rightarrow> WeakPtr" where
  "WeakPtr_clear w = w\<lparr>w_generation := - 1, w_storage := None\<rparr>"

definition WeakPtr_generation :: "WeakPtr \<Rightarrow> int32" where
  "WeakPtr_generation w = w_generation w"

subsection \<open>Storage (lines 210-227)\<close>

definition init_data :: "nat \<Rightarrow> 'd \<Rightarrow> 'd ObjectPool \<Rightarrow> 'd ObjectPool" where
  "init_data a v s = s\<lparr>heap := (heap s)[a := (heap s ! a)\<lparr>data := v\<rparr>]\<rparr>"

definition generation_fetch_add :: "nat \<Rightarrow> 'd ObjectPool \<Rightarrow> 'd ObjectPool" where
  "generation_fetch_add a s =
     log_event (Generation_fetch_add a)
       (s\<lparr>heap := (heap s)[a := (heap s ! a)\<lparr>generation := generation (heap s ! a) + 1\<rparr>]\<rparr>)"

definition fence_release :: "'d ObjectPool \<Rightarrow> 'd ObjectPool" where
  "fence_release s = log_event Fence_release s"

definition data_clear :: "('d \<Rightarrow> 'd) \<Rightarrow> nat \<Rightarrow> 'd ObjectPool \<Rightarrow> 'd ObjectPool" where
  "data_clear clr a s =
     log_event (Data_clear a)
       (s\<lparr>heap := (heap s)[a := (heap s ! a)\<lparr>data := clr (data (heap s ! a))\<rparr>]\<rparr>)"

text \<open>Lines 222-226, statement by statement.\<close>

definition destroy_data :: "('d \<Rightarrow> 'd) \<Rightarrow> nat \<Rightarrow> 'd ObjectPool \<Rightarrow> 'd ObjectPool" where
  "destroy_data clr a s = data_clear clr a (fence_release (generation_fetch_add a s))"

subsection \<open>OwnerPtr (lines 94-168)\<close>

text \<open>\<^verbatim>\<open>OwnerPtr() = default\<close>\<close>

definition OwnerPtr_default :: OwnerPtr where
  "OwnerPtr_default = \<lparr>storage = None, parent = None\<rparr>"

text \<open>The move constructor (lines 99-102) returns the new handle and the moved-from one.\<close>

definition OwnerPtr_move :: "OwnerPtr \<Rightarrow> OwnerPtr \<times> OwnerPtr" where
  "OwnerPtr_move other =
     (\<lparr>storage = storage other, parent = parent other\<rparr>,
      other\<lparr>storage := None, parent := None\<rparr>)"


definition OwnerPtr_get :: "OwnerPtr \<Rightarrow> 'd ObjectPool \<Rightarrow> error + 'd" where
  "OwnerPtr_get p s =
     (case storage p of
        None \<Rightarrow> Inl Null_dereference
      | Some a \<Rightarrow> if valid_ptr s a then Inr (data (heap s ! a)) else Inl Invalid_pointer)"

definition get_weak :: "OwnerPtr \<Rightarrow> 'd ObjectPool \<Rightarrow> error + WeakPtr" where
  "get_weak p s =
     (case storage p of
        None \<Rightarrow> Inl Null_dereference
      | Some a \<Rightarrow>
          if valid_ptr s a then Inr \<lparr>w_generation = generation (heap s ! a), w_storage = storage p\<rparr>
          else Inl Invalid_pointer)"

definition OwnerPtr_generation :: "OwnerPtr \<Rightarrow> 'd ObjectPool \<Rightarrow> error + int32" where
  "OwnerPtr_generation p s =
     (case storage p of
        None \<Rightarrow> Inl Null_dereference
      | Some a \<Rightarrow> if valid_ptr s a then Inr (generation (heap s ! a)) else Inl Invalid_pointer)"

text \<open>\<^verbatim>\<open>OwnerPtr::release\<close> (lines 143-147): the pointer, and the handle without it.\<close>

definition OwnerPtr_release :: "OwnerPtr \<Rightarrow> nat option \<times> OwnerPtr" where
  "OwnerPtr_release p = (storage p, p\<lparr>storage := None\<rparr>)"

definition OwnerPtr_empty :: "OwnerPtr \<Rightarrow> bool" where
  "OwnerPtr_empty p = (storage p = None)"

subsection \<open>The free list and the chunks (lines 229-307)\<close>

text \<open>The loop of lines 244-246.\<close>

function link_loop :: "nat \<Rightarrow> nat \<Rightarrow> 'd ObjectPool \<Rightarrow> 'd ObjectPool" where
  "link_loop chunk i s =
     (if i < CHUNK_SIZE - 1
      then link_loop chunk (i + 1) (set_next (chunk + i) (Some (chunk + (i + 1))) s)
      else s)"
  by pat_completeness auto
termination
  by (relation "measure (\<lambda>(chunk, i, s). CHUNK_SIZE - 1 - i)") auto

declare link_loop.simps [simp del]

lemma cas_tick_shorter:
  "cas_spurious s \<Longrightarrow> length (weak_cas_failures (cas_tick s)) < length (weak_cas_failures s)"
  by (cases "weak_cas_failures s") (simp_all add: cas_spurious_def cas_tick_def)

text \<open>The loop of lines 252-258: the chunk's slots 1 .. CHUNK_SIZE-2 go onto the free list.\<close>

function publish_loop :: "nat \<Rightarrow> 'd ObjectPool \<Rightarrow> 'd ObjectPool" where
  "publish_loop chunk s =
     (let save_head = head s;
          s1 = set_next (chunk + (CHUNK_SIZE - 2)) save_head s
      in if cas_spurious s1 then publish_loop chunk (cas_tick s1)
         else (cas_tick s1)\<lparr>head := Some (chunk + 1)\<rparr>)"
  by pat_completeness auto
termination
  by (relation "measure (\<lambda>(chunk, s). length (weak_cas_failures s))")
     (auto dest!: cas_tick_shorter simp: set_next_def cas_tick_def)

declare publish_loop.simps [simp del]

text \<open>The loop of lines 264-270: the chunk's last slot goes onto the chunk list.\<close>

function track_loop :: "nat \<Rightarrow> 'd ObjectPool \<Rightarrow> 'd ObjectPool" where
  "track_loop chunk_node s =
     (let save_head = chunk_list s;
          s1 = set_next chunk_node save_head s
      in if cas_spurious s1 then track_loop chunk_node (cas_tick s1)
         else (cas_tick s1)\<lparr>chunk_list := Some chunk_node\<rparr>)"
  by pat_completeness auto
termination
  by (relation "measure (\<lambda>(chunk_node, s). length (weak_cas_failures s))")
     (auto dest!: cas_tick_shorter simp: set_next_def cas_tick_def)

declare track_loop.simps [simp del]

text \<open>
  \<^verbatim>\<open>allocate_chunk\<close> (lines 237-273). \<^verbatim>\<open>new Storage[CHUNK_SIZE]\<close> returns the next free
  address; a failing allocation ends the program and is not a value of the model.
\<close>

definition allocate_chunk :: "'d \<Rightarrow> 'd ObjectPool \<Rightarrow> nat \<times> 'd ObjectPool" where
  "allocate_chunk dflt s =
     (let chunk = length (heap s);
          s1 = s\<lparr>heap := heap s @ replicate CHUNK_SIZE (Storage_default dflt)\<rparr>;
          s2 = s1\<lparr>storage_count := storage_count s1 + of_nat CHUNK_SIZE\<rparr>;
          s3 = link_loop chunk 1 s2;
          s4 = set_next (chunk + (CHUNK_SIZE - 2)) None s3;
          s5 = (if CHUNK_SIZE > 2 then publish_loop chunk s4 else s4);
          s6 = track_loop (chunk + (CHUNK_SIZE - 1)) s5
      in (chunk, s6))"

text \<open>The loop of lines 284-293.\<close>

function get_storage_loop :: "'d \<Rightarrow> 'd ObjectPool \<Rightarrow> error + nat \<times> 'd ObjectPool" where
  "get_storage_loop dflt s =
     (case head s of
        None \<Rightarrow> Inr (allocate_chunk dflt s)
      | Some res \<Rightarrow>
          if valid_ptr s res then
            let nxt = next_ptr (heap s ! res)
            in if cas_spurious s then get_storage_loop dflt (cas_tick s)
               else Inr (res, (cas_tick s)\<lparr>head := nxt\<rparr>)
          else Inl Invalid_pointer)"
  by pat_completeness auto
termination
  by (relation "measure (\<lambda>(dflt, s). length (weak_cas_failures s))")
     (auto dest!: cas_tick_shorter)

declare get_storage_loop.simps [simp del]

definition get_storage :: "'d \<Rightarrow> 'd ObjectPool \<Rightarrow> error + nat \<times> 'd ObjectPool" where
  "get_storage dflt s =
     (case head s of
        None \<Rightarrow> Inr (allocate_chunk dflt s)
      | Some res \<Rightarrow> get_storage_loop dflt s)"

text \<open>\<^verbatim>\<open>release_storage\<close> (lines 298-307).\<close>

function release_storage :: "nat \<Rightarrow> 'd ObjectPool \<Rightarrow> 'd ObjectPool" where
  "release_storage a s =
     (let save_head = head s;
          s1 = set_next a save_head s
      in if cas_spurious s1 then release_storage a (cas_tick s1)
         else log_event (Free_list_push a) ((cas_tick s1)\<lparr>head := Some a\<rparr>))"
  by pat_completeness auto
termination
  by (relation "measure (\<lambda>(a, s). length (weak_cas_failures s))")
     (auto dest!: cas_tick_shorter simp: set_next_def cas_tick_def)

declare release_storage.simps [simp del]

subsection \<open>The pool's interface (lines 170-207)\<close>

definition create :: "'d \<Rightarrow> 'd \<Rightarrow> 'd ObjectPool \<Rightarrow> error + OwnerPtr \<times> 'd ObjectPool" where
  "create dflt v s =
     and_then (get_storage dflt s)
       (\<lambda>(a, s1). Inr (\<lparr>storage = Some a, parent = Some ()\<rparr>, init_data a v s1))"

definition create_empty :: "'d \<Rightarrow> 'd ObjectPool \<Rightarrow> error + OwnerPtr \<times> 'd ObjectPool" where
  "create_empty dflt s =
     and_then (get_storage dflt s)
       (\<lambda>(a, s1). Inr (\<lparr>storage = Some a, parent = Some ()\<rparr>, s1))"

definition set_check_empty :: "bool \<Rightarrow> 'd ObjectPool \<Rightarrow> 'd ObjectPool" where
  "set_check_empty flag s = s\<lparr>check_empty_flag := flag\<rparr>"

text \<open>
  \<^verbatim>\<open>ObjectPool::release\<close> (lines 186-190). It returns the caller's handle as
  \<^verbatim>\<open>owner_ptr.release()\<close> leaves it, and the pool.
\<close>

definition release ::
  "('d \<Rightarrow> 'd) \<Rightarrow> OwnerPtr \<Rightarrow> 'd ObjectPool \<Rightarrow> error + OwnerPtr \<times> 'd ObjectPool" where
  "release clr owner_ptr s =
     (let (st, owner_ptr1) = OwnerPtr_release owner_ptr
      in case st of
           None \<Rightarrow> Inl Null_dereference
         | Some a \<Rightarrow>
             if valid_ptr s a
             then Inr (owner_ptr1, release_storage a (destroy_data clr a s))
             else Inl Invalid_pointer)"

text \<open>
  \<^verbatim>\<open>OwnerPtr::reset\<close> (lines 153-160). The temporary \<^verbatim>\<open>OwnerPtr(tmp, parent_)\<close> comes
  back from \<open>release\<close> empty, so its destructor does nothing.
\<close>

definition reset ::
  "('d \<Rightarrow> 'd) \<Rightarrow> OwnerPtr \<Rightarrow> 'd ObjectPool \<Rightarrow> error + OwnerPtr \<times> 'd ObjectPool" where
  "reset clr p s =
     (if storage p \<noteq> None then
        let tmp = storage p;
            p1 = p\<lparr>storage := None\<rparr>
        in case parent p1 of
             None \<Rightarrow> Inl Null_dereference
           | Some u \<Rightarrow>
               and_then (release clr \<lparr>storage = tmp, parent = parent p1\<rparr> s)
                 (\<lambda>(temporary, s1). Inr (p1, s1))
      else Inr (p, s))"

text \<open>\<^verbatim>\<open>~OwnerPtr\<close> (lines 112-114)\<close>

definition OwnerPtr_destroy ::
  "('d \<Rightarrow> 'd) \<Rightarrow> OwnerPtr \<Rightarrow> 'd ObjectPool \<Rightarrow> error + OwnerPtr \<times> 'd ObjectPool" where
  "OwnerPtr_destroy clr p s = reset clr p s"

text \<open>
  \<^verbatim>\<open>~ObjectPool\<close> (lines 197-207). The result is the list of chunks handed to
  \<^verbatim>\<open>delete[]\<close>, in order; \<open>freed\<close> holds the chunks deleted so far. Reading
  \<^verbatim>\<open>node->next\<close> inside a deleted chunk, and \<^verbatim>\<open>delete[]\<close> of an address that no
  \<^verbatim>\<open>new Storage[CHUNK_SIZE]\<close> returned, are undefined in C++.
\<close>

lemma destroy_loop_measure:
  fixes chunk n :: nat
  assumes "chunk < n" and "chunk \<notin> set freed"
  shows "card ({..<n} - set (freed @ [chunk])) < card ({..<n} - set freed)"
proof (rule psubset_card_mono)
  show "finite ({..<n} - set freed)" by simp
  show "{..<n} - set (freed @ [chunk]) \<subset> {..<n} - set freed"
    using assms by auto
qed

function destroy_loop :: "'d Storage list \<Rightarrow> nat option \<Rightarrow> nat list \<Rightarrow> error + nat list" where
  "destroy_loop h node freed =
     (case node of
        None \<Rightarrow> Inr freed
      | Some n \<Rightarrow>
          if n < length h \<and> CHUNK_SIZE - 1 \<le> n \<and> (n - (CHUNK_SIZE - 1)) mod CHUNK_SIZE = 0 then
            if n - (CHUNK_SIZE - 1) \<in> set freed then Inl Use_after_free
            else destroy_loop h (next_ptr (h ! n)) (freed @ [n - (CHUNK_SIZE - 1)])
          else Inl Invalid_pointer)"
  by pat_completeness auto
termination
proof (relation "measure (\<lambda>(h, node, freed). card ({..<length h} - set freed))", goal_cases)
  case 1
  show ?case by simp
next
  case (2 h node freed n)
  then have "n - (CHUNK_SIZE - 1) < length h" and "n - (CHUNK_SIZE - 1) \<notin> set freed"
    by auto
  from destroy_loop_measure [OF this] show ?case
    by (simp only: in_measure prod.case)
qed

declare destroy_loop.simps [simp del]

definition ObjectPool_destroy :: "'d ObjectPool \<Rightarrow> error + nat list" where
  "ObjectPool_destroy s = destroy_loop (heap s) (chunk_list s) []"

subsection \<open>Client programs\<close>

text \<open>
  A client is a sequence of calls of the interface. A call that only reads leaves the
  pool as it is; \<open>Move\<close> is the move constructor, which touches the two handles and
  nothing else. The sequence stops at the first undefined call.
\<close>

datatype 'd command =
    Create 'd
  | Create_empty
  | Release OwnerPtr
  | Reset OwnerPtr
  | Get_weak OwnerPtr
  | Get OwnerPtr
  | Generation OwnerPtr
  | Move OwnerPtr
  | Is_alive WeakPtr
  | Is_alive_unsafe WeakPtr
  | Weak_get WeakPtr
  | Set_check_empty bool

fun exec :: "('d \<Rightarrow> 'd) \<Rightarrow> 'd \<Rightarrow> 'd command \<Rightarrow> 'd ObjectPool \<Rightarrow> error + 'd ObjectPool" where
  "exec clr dflt (Create v) s = and_then (create dflt v s) (\<lambda>(h, s1). Inr s1)"
| "exec clr dflt Create_empty s = and_then (create_empty dflt s) (\<lambda>(h, s1). Inr s1)"
| "exec clr dflt (Release h) s = and_then (release clr h s) (\<lambda>(h1, s1). Inr s1)"
| "exec clr dflt (Reset h) s = and_then (reset clr h s) (\<lambda>(h1, s1). Inr s1)"
| "exec clr dflt (Get_weak h) s = and_then (get_weak h s) (\<lambda>w. Inr s)"
| "exec clr dflt (Get h) s = and_then (OwnerPtr_get h s) (\<lambda>d. Inr s)"
| "exec clr dflt (Generation h) s = and_then (OwnerPtr_generation h s) (\<lambda>g. Inr s)"
| "exec clr dflt (Move h) s = Inr s"
| "exec clr dflt (Is_alive w) s = and_then (is_alive w s) (\<lambda>b. Inr s)"
| "exec clr dflt (Is_alive_unsafe w) s = and_then (is_alive_unsafe w s) (\<lambda>b. Inr s)"
| "exec clr dflt (Weak_get w) s = and_then (WeakPtr_deref w s) (\<lambda>d. Inr s)"
| "exec clr dflt (Set_check_empty flag) s = Inr (set_check_empty flag s)"

fun run :: "('d \<Rightarrow> 'd) \<Rightarrow> 'd \<Rightarrow> 'd command list \<Rightarrow> 'd ObjectPool \<Rightarrow> error + 'd ObjectPool" where
  "run clr dflt [] s = Inr s"
| "run clr dflt (c # cs) s = and_then (exec clr dflt c s) (run clr dflt cs)"

text \<open>The calls that retire the element of slot \<open>a\<close>, and their number in a sequence.\<close>

fun retires :: "nat \<Rightarrow> 'd command \<Rightarrow> bool" where
  "retires a (Release h) = (storage h = Some a)"
| "retires a (Reset h) = (storage h = Some a)"
| "retires a c = False"

definition retirements :: "nat \<Rightarrow> 'd command list \<Rightarrow> nat" where
  "retirements a cs = length (filter (retires a) cs)"

text \<open>A client that holds one element, and \<open>n\<close> times retires it and creates the next.\<close>

fun recycle ::
  "nat \<Rightarrow> ('d \<Rightarrow> 'd) \<Rightarrow> 'd \<Rightarrow> 'd \<Rightarrow> OwnerPtr \<times> 'd ObjectPool \<Rightarrow> error + OwnerPtr \<times> 'd ObjectPool" where
  "recycle 0 clr dflt v hs = Inr hs"
| "recycle (Suc n) clr dflt v hs =
     and_then (release clr (fst hs) (snd hs))
       (\<lambda>(h1, s1). and_then (create dflt v s1) (recycle n clr dflt v))"

subsection \<open>Describing pool states\<close>

text \<open>\<open>linked h p a\<close>: following \<^verbatim>\<open>next\<close> from the pointer \<open>p\<close> reaches slot \<open>a\<close>.\<close>

inductive linked :: "'d Storage list \<Rightarrow> nat option \<Rightarrow> nat \<Rightarrow> bool" for h where
  here: "a < length h \<Longrightarrow> linked h (Some a) a"
| step: "b < length h \<Longrightarrow> linked h (next_ptr (h ! b)) a \<Longrightarrow> linked h (Some b) a"

code_pred linked .

definition on_free_list :: "'d ObjectPool \<Rightarrow> nat \<Rightarrow> bool" where
  "on_free_list s a = linked (heap s) (head s) a"

text \<open>The answers left to the environment after one compare-and-swap loop has run.\<close>

definition after_cas :: "bool list \<Rightarrow> bool list" where
  "after_cas fs = tl (dropWhile id fs)"

text \<open>Slot \<open>k\<close> of a chunk at address \<open>chunk\<close>, as \<open>allocate_chunk\<close> leaves it.\<close>

definition chunk_slot :: "'d \<Rightarrow> nat \<Rightarrow> nat option \<Rightarrow> nat option \<Rightarrow> nat \<Rightarrow> 'd Storage" where
  "chunk_slot dflt chunk old_head old_chunks k =
     \<lparr>data = dflt,
      next_ptr = (if k = 0 then None
                  else if k < CHUNK_SIZE - 2 then Some (chunk + k + 1)
                  else if k = CHUNK_SIZE - 2 then old_head
                  else old_chunks),
      generation = 1\<rparr>"

section \<open>Properties of the operations\<close>

subsection \<open>The loops in closed form\<close>

lemma after_cas_simps [simp]:
  "after_cas [] = []" "after_cas (True # fs) = after_cas fs" "after_cas (False # fs) = fs"
  by (simp_all add: after_cas_def)

lemma spurious_cases:
  obtains (fail) fs where "weak_cas_failures s = True # fs" "cas_spurious s"
  | (pass) "\<not> cas_spurious s" "after_cas (weak_cas_failures s) = tl (weak_cas_failures s)"
  by (cases "weak_cas_failures s") (auto simp: cas_spurious_def)

lemma upd_next_twice:
  "xs[a := (xs[a := (xs ! a)\<lparr>next_ptr := q'\<rparr>] ! a)\<lparr>next_ptr := q\<rparr>] = xs[a := (xs ! a)\<lparr>next_ptr := q\<rparr>]"
  by (cases "a < length xs") (simp_all add: list_update_beyond)

lemma release_storage_closed:
  "release_storage a s =
     s\<lparr>heap := (heap s)[a := (heap s ! a)\<lparr>next_ptr := head s\<rparr>],
       head := Some a, weak_cas_failures := after_cas (weak_cas_failures s),
       retire_log := retire_log s @ [Free_list_push a]\<rparr>"
proof (induction a s rule: release_storage.induct)
  case (1 a s)
  let ?s1 = "set_next a (head s) s"
  have c: "cas_spurious ?s1 = cas_spurious s"
    by (simp add: cas_spurious_def set_next_def)
  show ?case
  proof (cases s rule: spurious_cases)
    case (fail fs)
    have "release_storage a s = release_storage a (cas_tick ?s1)"
      using fail c by (subst release_storage.simps) (simp add: Let_def)
    then show ?thesis
      using "1.IH" [OF refl refl] fail c
      by (simp add: cas_tick_def set_next_def upd_next_twice)
  next
    case pass
    then show ?thesis
      using c by (subst release_storage.simps)
        (simp add: Let_def log_event_def cas_tick_def set_next_def)
  qed
qed

lemma publish_loop_closed:
  "publish_loop chunk s =
     s\<lparr>heap := (heap s)[chunk + (CHUNK_SIZE - 2) :=
            (heap s ! (chunk + (CHUNK_SIZE - 2)))\<lparr>next_ptr := head s\<rparr>],
       head := Some (chunk + 1), weak_cas_failures := after_cas (weak_cas_failures s)\<rparr>"
proof (induction chunk s rule: publish_loop.induct)
  case (1 chunk s)
  let ?s1 = "set_next (chunk + (CHUNK_SIZE - 2)) (head s) s"
  have c: "cas_spurious ?s1 = cas_spurious s"
    by (simp add: cas_spurious_def set_next_def)
  show ?case
  proof (cases s rule: spurious_cases)
    case (fail fs)
    have "publish_loop chunk s = publish_loop chunk (cas_tick ?s1)"
      using fail c by (subst publish_loop.simps) (simp add: Let_def)
    then show ?thesis
      using "1.IH" [OF refl refl] fail c
      by (simp add: cas_tick_def set_next_def upd_next_twice)
  next
    case pass
    then show ?thesis
      using c by (subst publish_loop.simps) (simp add: Let_def cas_tick_def set_next_def)
  qed
qed

lemma track_loop_closed:
  "track_loop node s =
     s\<lparr>heap := (heap s)[node := (heap s ! node)\<lparr>next_ptr := chunk_list s\<rparr>],
       chunk_list := Some node, weak_cas_failures := after_cas (weak_cas_failures s)\<rparr>"
proof (induction node s rule: track_loop.induct)
  case (1 node s)
  let ?s1 = "set_next node (chunk_list s) s"
  have c: "cas_spurious ?s1 = cas_spurious s"
    by (simp add: cas_spurious_def set_next_def)
  show ?case
  proof (cases s rule: spurious_cases)
    case (fail fs)
    have "track_loop node s = track_loop node (cas_tick ?s1)"
      using fail c by (subst track_loop.simps) (simp add: Let_def)
    then show ?thesis
      using "1.IH" [OF refl refl] fail c
      by (simp add: cas_tick_def set_next_def upd_next_twice)
  next
    case pass
    then show ?thesis
      using c by (subst track_loop.simps) (simp add: Let_def cas_tick_def set_next_def)
  qed
qed

lemma get_storage_loop_pop:
  "head s = Some res \<Longrightarrow> valid_ptr s res \<Longrightarrow>
   get_storage_loop dflt s =
     Inr (res, s\<lparr>weak_cas_failures := after_cas (weak_cas_failures s),
                 head := next_ptr (heap s ! res)\<rparr>)"
proof (induction dflt s rule: get_storage_loop.induct)
  case (1 dflt s)
  show ?case
  proof (cases s rule: spurious_cases)
    case (fail fs)
    have "get_storage_loop dflt s = get_storage_loop dflt (cas_tick s)"
      using fail 1 by (subst get_storage_loop.simps) (simp add: Let_def)
    then show ?thesis
      using "1.IH" [OF "1.prems"(1) "1.prems"(2) refl] fail "1.prems"
      by (simp add: cas_tick_def valid_ptr_def)
  next
    case pass
    then show ?thesis
      using 1 by (subst get_storage_loop.simps) (simp add: Let_def cas_tick_def)
  qed
qed

lemma link_loop_closed:
  "link_loop chunk i s =
     s\<lparr>heap := map (\<lambda>j. if chunk + i \<le> j \<and> j < chunk + (CHUNK_SIZE - 1)
                          then (heap s ! j)\<lparr>next_ptr := Some (j + 1)\<rparr> else heap s ! j)
                   [0..<length (heap s)]\<rparr>"
proof (induction chunk i s rule: link_loop.induct)
  case (1 chunk i s)
  let ?f = "\<lambda>i h j. if chunk + i \<le> j \<and> j < chunk + (CHUNK_SIZE - 1)
                          then (h ! j)\<lparr>next_ptr := Some (j + 1)\<rparr> else h ! j"
  show ?case
  proof (cases "i < CHUNK_SIZE - 1")
    case True
    let ?h1 = "(heap s)[chunk + i := (heap s ! (chunk + i))\<lparr>next_ptr := Some (chunk + (i + 1))\<rparr>]"
    have h: "map (?f (i + 1) ?h1) [0..<length ?h1] = map (?f i (heap s)) [0..<length (heap s)]"
    proof (rule nth_equalityI)
      fix j assume "j < length (map (?f (i + 1) ?h1) [0..<length ?h1])"
      then have j: "j < length (heap s)" by simp
      consider "j = chunk + i" | "j \<noteq> chunk + i" by blast
      then show "map (?f (i + 1) ?h1) [0..<length ?h1] ! j = map (?f i (heap s)) [0..<length (heap s)] ! j"
        using j True by cases (simp_all add: nth_list_update)
    qed simp
    have "link_loop chunk i s = link_loop chunk (i + 1) (set_next (chunk + i) (Some (chunk + (i + 1))) s)"
      using True by (subst link_loop.simps) simp
    also have "\<dots> = s\<lparr>heap := map (?f (i + 1) ?h1) [0..<length ?h1]\<rparr>"
      unfolding "1.IH" [OF True] by (simp add: set_next_def cong: if_cong)
    finally show ?thesis unfolding h .
  next
    case False
    have "link_loop chunk i s = s"
      using False by (subst link_loop.simps) simp
    moreover have "map (?f i (heap s)) [0..<length (heap s)] = heap s"
      using False by (intro nth_equalityI) auto
    ultimately show ?thesis by simp
  qed
qed

lemma allocate_chunk_heap:
  fixes h :: "'d Storage list" and dflt :: 'd and hd0 cl0 :: "nat option"
  defines "h1 \<equiv> h @ replicate CHUNK_SIZE (Storage_default dflt)"
  defines "h3 \<equiv> map (\<lambda>j. if length h + 1 \<le> j \<and> j < length h + (CHUNK_SIZE - 1)
                          then (h1 ! j)\<lparr>next_ptr := Some (j + 1)\<rparr> else h1 ! j) [0..<length h1]"
  defines "h4 \<equiv> h3[length h + (CHUNK_SIZE - 2) := (h3 ! (length h + (CHUNK_SIZE - 2)))\<lparr>next_ptr := None\<rparr>]"
  defines "h5 \<equiv> h4[length h + (CHUNK_SIZE - 2) := (h4 ! (length h + (CHUNK_SIZE - 2)))\<lparr>next_ptr := hd0\<rparr>]"
  defines "h6 \<equiv> h5[length h + (CHUNK_SIZE - 1) := (h5 ! (length h + (CHUNK_SIZE - 1)))\<lparr>next_ptr := cl0\<rparr>]"
  shows "h6 = h @ map (chunk_slot dflt (length h) hd0 cl0) [0..<CHUNK_SIZE]"
proof (rule nth_equalityI)
  show "length h6 = length (h @ map (chunk_slot dflt (length h) hd0 cl0) [0..<CHUNK_SIZE])"
    by (simp add: h6_def h5_def h4_def h3_def h1_def)
next
  fix j assume "j < length h6"
  then have j: "j < length h + CHUNK_SIZE"
    by (simp add: h6_def h5_def h4_def h3_def h1_def)
  show "h6 ! j = (h @ map (chunk_slot dflt (length h) hd0 cl0) [0..<CHUNK_SIZE]) ! j"
  proof (cases "j < length h")
    case True
    then show ?thesis
      by (simp add: h6_def h5_def h4_def h3_def h1_def nth_append nth_list_update CHUNK_SIZE_def)
  next
    case False
    then obtain k where k: "j = length h + k" "k < CHUNK_SIZE"
      using j by (metis add_diff_inverse_nat nat_add_left_cancel_less)
    show ?thesis
      using k
      by (simp add: h6_def h5_def h4_def h3_def h1_def nth_append nth_list_update
          chunk_slot_def Storage_default_def CHUNK_SIZE_def)
  qed
qed

lemma allocate_chunk_closed:
  "allocate_chunk dflt s =
     (length (heap s),
      s\<lparr>heap := heap s @ map (chunk_slot dflt (length (heap s)) (head s) (chunk_list s)) [0..<CHUNK_SIZE],
        storage_count := storage_count s + 64,
        head := Some (length (heap s) + 1),
        chunk_list := Some (length (heap s) + (CHUNK_SIZE - 1)),
        weak_cas_failures := after_cas (after_cas (weak_cas_failures s))\<rparr>)"
  unfolding allocate_chunk_def Let_def link_loop_closed publish_loop_closed track_loop_closed
  using allocate_chunk_heap [of "heap s" dflt "head s" "chunk_list s"]
  by (simp add: set_next_def CHUNK_SIZE_def cong: if_cong)

subsection \<open>The operations in closed form\<close>

lemma get_storage_empty:
  "head s = None \<Longrightarrow> get_storage dflt s = Inr (allocate_chunk dflt s)"
  by (simp add: get_storage_def)

lemma get_storage_pop:
  "head s = Some res \<Longrightarrow> valid_ptr s res \<Longrightarrow>
   get_storage dflt s =
     Inr (res, s\<lparr>weak_cas_failures := after_cas (weak_cas_failures s),
                 head := next_ptr (heap s ! res)\<rparr>)"
  by (simp add: get_storage_def get_storage_loop_pop)

lemma get_storage_invalid:
  "head s = Some res \<Longrightarrow> \<not> valid_ptr s res \<Longrightarrow> get_storage dflt s = Inl Invalid_pointer"
  by (simp add: get_storage_def get_storage_loop.simps)

lemma destroy_data_closed:
  "valid_ptr s a \<Longrightarrow>
   destroy_data clr a s =
     s\<lparr>heap := (heap s)[a := \<lparr>data = clr (data (heap s ! a)), next_ptr = next_ptr (heap s ! a),
                                   generation = generation (heap s ! a) + 1\<rparr>],
       retire_log := retire_log s @ [Generation_fetch_add a, Fence_release, Data_clear a]\<rparr>"
  by (cases "heap s ! a")
     (simp add: destroy_data_def data_clear_def fence_release_def generation_fetch_add_def
      log_event_def valid_ptr_def)

lemma release_closed:
  "storage h = Some a \<Longrightarrow> valid_ptr s a \<Longrightarrow>
   release clr h s =
     Inr (h\<lparr>storage := None\<rparr>,
          s\<lparr>heap := (heap s)[a := \<lparr>data = clr (data (heap s ! a)), next_ptr = head s,
                                   generation = generation (heap s ! a) + 1\<rparr>],
            head := Some a,
            weak_cas_failures := after_cas (weak_cas_failures s),
            retire_log := retire_log s @
              [Generation_fetch_add a, Fence_release, Data_clear a, Free_list_push a]\<rparr>)"
  by (simp add: release_def OwnerPtr_release_def destroy_data_closed release_storage_closed
      valid_ptr_def)

lemma release_null: "storage h = None \<Longrightarrow> release clr h s = Inl Null_dereference"
  by (simp add: release_def OwnerPtr_release_def)

lemma release_invalid:
  "storage h = Some a \<Longrightarrow> \<not> valid_ptr s a \<Longrightarrow> release clr h s = Inl Invalid_pointer"
  by (simp add: release_def OwnerPtr_release_def)

lemma reset_empty: "storage h = None \<Longrightarrow> reset clr h s = Inr (h, s)"
  by (simp add: reset_def)

lemma reset_closed:
  "storage h = Some a \<Longrightarrow> parent h = Some u \<Longrightarrow>
   reset clr h s =
     and_then (release clr h s) (\<lambda>(t, s1). Inr (h\<lparr>storage := None\<rparr>, s1))"
  by (cases "valid_ptr s a")
     (simp_all add: reset_def release_def OwnerPtr_release_def and_then_def Let_def)

lemma and_then_simps [simp]:
  "and_then (Inr x) f = f x" "and_then (Inl e) f = Inl e"
  by (simp_all add: and_then_def)

lemma create_empty_fresh:
  "head s = None \<Longrightarrow>
   create_empty dflt s =
     Inr (\<lparr>storage = Some (length (heap s)), parent = Some ()\<rparr>, snd (allocate_chunk dflt s))"
  by (simp add: create_empty_def get_storage_empty allocate_chunk_closed)

lemma create_fresh:
  "head s = None \<Longrightarrow>
   create dflt v s =
     Inr (\<lparr>storage = Some (length (heap s)), parent = Some ()\<rparr>,
          init_data (length (heap s)) v (snd (allocate_chunk dflt s)))"
  by (simp add: create_def get_storage_empty allocate_chunk_closed)

lemma create_reuse:
  "head s = Some res \<Longrightarrow> valid_ptr s res \<Longrightarrow>
   create dflt v s =
     Inr (\<lparr>storage = Some res, parent = Some ()\<rparr>,
          s\<lparr>heap := (heap s)[res := (heap s ! res)\<lparr>data := v\<rparr>],
            head := next_ptr (heap s ! res),
            weak_cas_failures := after_cas (weak_cas_failures s)\<rparr>)"
  by (simp add: create_def get_storage_pop init_data_def)

lemma create_empty_reuse:
  "head s = Some res \<Longrightarrow> valid_ptr s res \<Longrightarrow>
   create_empty dflt s =
     Inr (\<lparr>storage = Some res, parent = Some ()\<rparr>,
          s\<lparr>head := next_ptr (heap s ! res),
            weak_cas_failures := after_cas (weak_cas_failures s)\<rparr>)"
  by (simp add: create_empty_def get_storage_pop)

lemma fresh_chunk_fields:
  "length (heap (snd (allocate_chunk dflt s))) = length (heap s) + CHUNK_SIZE"
  "head (snd (allocate_chunk dflt s)) = Some (length (heap s) + 1)"
  "chunk_list (snd (allocate_chunk dflt s)) = Some (length (heap s) + (CHUNK_SIZE - 1))"
  "storage_count (snd (allocate_chunk dflt s)) = storage_count s + 64"
  "check_empty_flag (snd (allocate_chunk dflt s)) = check_empty_flag s"
  "retire_log (snd (allocate_chunk dflt s)) = retire_log s"
  "weak_cas_failures (snd (allocate_chunk dflt s)) = after_cas (after_cas (weak_cas_failures s))"
  "fst (allocate_chunk dflt s) = length (heap s)"
  by (simp_all add: allocate_chunk_closed)

lemma fresh_chunk_old:
  "a < length (heap s) \<Longrightarrow> heap (snd (allocate_chunk dflt s)) ! a = heap s ! a"
  by (simp add: allocate_chunk_closed nth_append)

lemma fresh_chunk_new:
  "k < CHUNK_SIZE \<Longrightarrow>
   heap (snd (allocate_chunk dflt s)) ! (length (heap s) + k) =
     chunk_slot dflt (length (heap s)) (head s) (chunk_list s) k"
  by (simp add: allocate_chunk_closed nth_append)

lemma init_data_fields [simp]:
  "head (init_data a v s) = head s"
  "chunk_list (init_data a v s) = chunk_list s"
  "storage_count (init_data a v s) = storage_count s"
  "check_empty_flag (init_data a v s) = check_empty_flag s"
  "weak_cas_failures (init_data a v s) = weak_cas_failures s"
  "retire_log (init_data a v s) = retire_log s"
  "length (heap (init_data a v s)) = length (heap s)"
  by (simp_all add: init_data_def)

lemma init_data_nth:
  "b < length (heap s) \<Longrightarrow>
   heap (init_data a v s) ! b = (if b = a then (heap s ! a)\<lparr>data := v\<rparr> else heap s ! b)"
  by (simp add: init_data_def nth_list_update)

text \<open>The first element of a new pool lives in slot 0 of the first chunk.\<close>

lemma first_create:
  obtains s1 :: "'d ObjectPool" where
    "create dflt v (new_pool fs) = Inr (\<lparr>storage = Some 0, parent = Some ()\<rparr>, s1)"
    "valid_ptr s1 0" "generation (heap s1 ! 0) = 1" "data (heap s1 ! 0) = v"
    "retire_log s1 = []" "head s1 = Some 1" "length (heap s1) = CHUNK_SIZE"
proof
  let ?s0 = "new_pool fs :: 'd ObjectPool"
  let ?s1 = "init_data 0 v (snd (allocate_chunk dflt ?s0))"
  have h: "head ?s0 = None" "length (heap ?s0) = 0" "retire_log ?s0 = []"
    by (simp_all add: new_pool_def)
  show "create dflt v ?s0 = Inr (\<lparr>storage = Some 0, parent = Some ()\<rparr>, ?s1)"
    using create_fresh [OF h(1), of dflt v] h(2) by simp
  have n: "heap (snd (allocate_chunk dflt ?s0)) ! 0 = chunk_slot dflt 0 None None 0"
    using fresh_chunk_new [of 0 dflt ?s0] by (simp add: new_pool_def CHUNK_SIZE_def)
  show "valid_ptr ?s1 0"
    by (simp add: valid_ptr_def fresh_chunk_fields h CHUNK_SIZE_def)
  show "generation (heap ?s1 ! 0) = 1" "data (heap ?s1 ! 0) = v"
    by (simp_all add: init_data_nth fresh_chunk_fields h CHUNK_SIZE_def n chunk_slot_def)
  show "retire_log ?s1 = []" "head ?s1 = Some 1" "length (heap ?s1) = CHUNK_SIZE"
    by (simp_all add: fresh_chunk_fields h)
qed

text \<open>The destructor of a pool that holds one chunk deletes that chunk.\<close>

lemma destroy_first_chunk:
  assumes "create dflt v (new_pool fs) = Inr (h, s1)"
  shows "ObjectPool_destroy s1 = Inr [0]"
proof -
  have e: "head (new_pool fs :: 'a ObjectPool) = None"
    "length (heap (new_pool fs :: 'a ObjectPool)) = 0"
    "chunk_list (new_pool fs :: 'a ObjectPool) = None"
    by (simp_all add: new_pool_def)
  from assms have s1: "s1 = init_data 0 v (snd (allocate_chunk dflt (new_pool fs)))"
    by (simp add: create_fresh [OF e(1)] e(2))
  have c: "chunk_list s1 = Some 63" and l: "length (heap s1) = 64"
    by (simp_all add: s1 fresh_chunk_fields e CHUNK_SIZE_def)
  have "heap (snd (allocate_chunk dflt (new_pool fs))) ! (0 + 63) = chunk_slot dflt 0 None None 63"
    using fresh_chunk_new [of 63 dflt "new_pool fs"] by (simp add: e CHUNK_SIZE_def)
  then have n: "next_ptr (heap s1 ! 63) = None"
    by (simp add: s1 init_data_nth fresh_chunk_fields e CHUNK_SIZE_def chunk_slot_def)
  show ?thesis
    unfolding ObjectPool_destroy_def c
    by (subst destroy_loop.simps, simp add: l n CHUNK_SIZE_def)
       (subst destroy_loop.simps, simp)
qed

subsection \<open>The flag of set_check_empty\<close>

lemma get_storage_flag:
  "get_storage dflt (set_check_empty flag s) =
     map_sum id (apsnd (set_check_empty flag)) (get_storage dflt s)"
proof (cases "head s")
  case None
  then show ?thesis
    by (simp add: get_storage_empty set_check_empty_def allocate_chunk_closed)
next
  case (Some res)
  show ?thesis
  proof (cases "valid_ptr s res")
    case True
    then have "valid_ptr (set_check_empty flag s) res"
      by (simp add: valid_ptr_def set_check_empty_def)
    then show ?thesis
      using Some True
      by (simp add: get_storage_pop [where res = res] set_check_empty_def)
  next
    case False
    then have "\<not> valid_ptr (set_check_empty flag s) res"
      by (simp add: valid_ptr_def set_check_empty_def)
    then show ?thesis
      using Some False
      by (simp add: get_storage_invalid [where res = res] set_check_empty_def)
  qed
qed

lemma create_flag:
  "create dflt v (set_check_empty flag s) =
     map_sum id (apsnd (set_check_empty flag)) (create dflt v s)"
  unfolding create_def get_storage_flag
  by (cases "get_storage dflt s") (auto simp: init_data_def set_check_empty_def)

lemma create_empty_flag:
  "create_empty dflt (set_check_empty flag s) =
     map_sum id (apsnd (set_check_empty flag)) (create_empty dflt s)"
  unfolding create_empty_def get_storage_flag
  by (cases "get_storage dflt s") (auto simp: set_check_empty_def)

lemma release_flag:
  "release clr h (set_check_empty flag s) =
     map_sum id (apsnd (set_check_empty flag)) (release clr h s)"
proof (cases "storage h")
  case None
  then show ?thesis by (simp add: release_null)
next
  case (Some a)
  show ?thesis
  proof (cases "valid_ptr s a")
    case True
    then have "valid_ptr (set_check_empty flag s) a"
      by (simp add: valid_ptr_def set_check_empty_def)
    then show ?thesis
      using Some True by (simp add: release_closed [where a = a] set_check_empty_def)
  next
    case False
    then have "\<not> valid_ptr (set_check_empty flag s) a"
      by (simp add: valid_ptr_def set_check_empty_def)
    then show ?thesis
      using Some False by (simp add: release_invalid [where a = a])
  qed
qed

lemma reset_flag:
  "reset clr h (set_check_empty flag s) =
     map_sum id (apsnd (set_check_empty flag)) (reset clr h s)"
  unfolding reset_def release_flag
  by (cases "release clr \<lparr>storage = storage h, parent = parent (h\<lparr>storage := None\<rparr>)\<rparr> s")
     (auto simp: Let_def split: option.splits)

subsection \<open>Following the links of a new chunk\<close>

lemma linked_None [simp]: "\<not> linked h None a"
  by (auto elim: linked.cases)

lemma linked_Some:
  "linked h (Some b) a \<longleftrightarrow> b < length h \<and> (a = b \<or> linked h (next_ptr (h ! b)) a)"
  by (auto elim: linked.cases intro: linked.intros)

lemma linked_in_chunk:
  assumes nxt: "\<And>k. 1 \<le> k \<Longrightarrow> k < 62 \<Longrightarrow> next_ptr (h ! (c + k)) = Some (c + k + 1)"
    and last: "next_ptr (h ! (c + 62)) = None"
  shows "linked h p a \<Longrightarrow> p = Some (c + k) \<Longrightarrow> 1 \<le> k \<Longrightarrow> k \<le> 62 \<Longrightarrow> c + k \<le> a \<and> a \<le> c + 62"
proof (induction arbitrary: k rule: linked.induct)
  case (here a)
  then show ?case by simp
next
  case (step b a)
  then have b: "b = c + k" by simp
  show ?case
  proof (cases "k = 62")
    case True
    with step.hyps(2) b last show ?thesis by simp
  next
    case False
    with step.prems have k: "k < 62" by simp
    have "next_ptr (h ! b) = Some (c + Suc k)"
      using nxt [of k] step.prems k b by simp
    from step.IH [OF this] k have "c + Suc k \<le> a \<and> a \<le> c + 62" by simp
    then show ?thesis by simp
  qed
qed

lemma chunk_linked:
  assumes nxt: "\<And>k. 1 \<le> k \<Longrightarrow> k < 62 \<Longrightarrow> next_ptr (h ! (c + k)) = Some (c + k + 1)"
    and len: "c + 64 \<le> length h"
  shows "1 \<le> j \<Longrightarrow> j + d \<le> 62 \<Longrightarrow> linked h (Some (c + j)) (c + j + d)"
proof (induction d arbitrary: j)
  case 0
  then show ?case using len by (simp add: linked.here)
next
  case (Suc d)
  have "linked h (Some (c + Suc j)) (c + Suc j + d)"
    using Suc.IH [of "Suc j"] Suc.prems by simp
  moreover have "next_ptr (h ! (c + j)) = Some (c + Suc j)"
    using nxt [of j] Suc.prems by simp
  ultimately show ?case
    using len Suc.prems by (simp add: linked_Some [of h "c + j"])
qed

lemma fresh_chunk_free_list:
  assumes "head s = None"
  shows "on_free_list (snd (allocate_chunk dflt s)) a \<longleftrightarrow>
           length (heap s) + 1 \<le> a \<and> a \<le> length (heap s) + 62"
proof -
  let ?c = "length (heap s)"
  let ?h = "heap (snd (allocate_chunk dflt s))"
  have nxt: "\<And>k. 1 \<le> k \<Longrightarrow> k < 62 \<Longrightarrow> next_ptr (?h ! (?c + k)) = Some (?c + k + 1)"
    by (simp add: fresh_chunk_new chunk_slot_def CHUNK_SIZE_def)
  have last: "next_ptr (?h ! (?c + 62)) = None"
    using assms by (simp add: fresh_chunk_new chunk_slot_def CHUNK_SIZE_def)
  have len: "?c + 64 \<le> length ?h"
    by (simp add: fresh_chunk_fields CHUNK_SIZE_def)
  show ?thesis
  proof
    assume "on_free_list (snd (allocate_chunk dflt s)) a"
    then have "linked ?h (Some (?c + 1)) a"
      by (simp add: on_free_list_def fresh_chunk_fields)
    from linked_in_chunk [OF nxt last this, of 1] show "?c + 1 \<le> a \<and> a \<le> ?c + 62"
      by simp
  next
    assume a: "?c + 1 \<le> a \<and> a \<le> ?c + 62"
    then obtain d where d: "a = ?c + 1 + d" "1 + d \<le> 62"
      by (metis add.assoc le_iff_add nat_add_left_cancel_le)
    from chunk_linked [OF nxt len, of 1 d] d
    show "on_free_list (snd (allocate_chunk dflt s)) a"
      by (simp add: on_free_list_def fresh_chunk_fields)
  qed
qed

subsection \<open>What a call does to the generations\<close>

lemma get_storage_generation:
  assumes "get_storage dflt s = Inr (r, s1)"
  shows "length (heap s) \<le> length (heap s1) \<and> r < length (heap s1) \<and>
         (\<forall>a<length (heap s1). generation (heap s1 ! a) =
            (if a < length (heap s) then generation (heap s ! a) else 1))"
proof (cases "head s")
  case None
  then have "allocate_chunk dflt s = (r, s1)"
    using assms by (simp add: get_storage_empty)
  then have s1: "s1 = snd (allocate_chunk dflt s)" and r: "r = fst (allocate_chunk dflt s)"
    by simp_all
  have "generation (heap s1 ! a) = (if a < length (heap s) then generation (heap s ! a) else 1)"
    if "a < length (heap s1)" for a
  proof (cases "a < length (heap s)")
    case True
    then show ?thesis by (simp add: s1 fresh_chunk_old)
  next
    case False
    define k where "k = a - length (heap s)"
    have k: "a = length (heap s) + k" "k < CHUNK_SIZE"
      using that False by (simp_all add: k_def s1 fresh_chunk_fields)
    then show ?thesis
      by (simp add: s1 fresh_chunk_new chunk_slot_def)
  qed
  then show ?thesis
    by (simp add: s1 r fresh_chunk_fields CHUNK_SIZE_def)
next
  case (Some res)
  show ?thesis
  proof (cases "valid_ptr s res")
    case True
    with Some assms show ?thesis
      by (auto simp: get_storage_pop valid_ptr_def)
  next
    case False
    with Some assms show ?thesis
      by (simp add: get_storage_invalid)
  qed
qed

lemma create_generation:
  assumes "create dflt v s = Inr (h, s1)"
  shows "length (heap s) \<le> length (heap s1) \<and>
         (\<forall>a<length (heap s1). generation (heap s1 ! a) =
            (if a < length (heap s) then generation (heap s ! a) else 1))"
proof -
  from assms obtain r s0 where g: "get_storage dflt s = Inr (r, s0)" and s1: "s1 = init_data r v s0"
    by (cases "get_storage dflt s") (auto simp: create_def)
  have "generation (heap (init_data r v s0) ! a) = generation (heap s0 ! a)"
    if "a < length (heap s0)" for a
    using that by (simp add: init_data_nth)
  with get_storage_generation [OF g] show ?thesis
    by (simp add: s1)
qed

lemma create_empty_generation:
  assumes "create_empty dflt s = Inr (h, s1)"
  shows "length (heap s) \<le> length (heap s1) \<and>
         (\<forall>a<length (heap s1). generation (heap s1 ! a) =
            (if a < length (heap s) then generation (heap s ! a) else 1))"
proof -
  from assms have g: "get_storage dflt s = Inr (the (storage h), s1)"
    by (cases "get_storage dflt s") (auto simp: create_empty_def)
  from get_storage_generation [OF g] show ?thesis
    by simp
qed

lemma release_generation:
  assumes "release clr h s = Inr (h1, s1)"
  shows "\<exists>b. storage h = Some b \<and> b < length (heap s) \<and> length (heap s1) = length (heap s) \<and>
           (\<forall>a<length (heap s). generation (heap s1 ! a) =
              generation (heap s ! a) + (if a = b then 1 else 0))"
proof (cases "storage h")
  case None
  with assms show ?thesis by (simp add: release_null)
next
  case (Some b)
  show ?thesis
  proof (cases "valid_ptr s b")
    case True
    with Some assms show ?thesis
      by (auto simp: release_closed valid_ptr_def nth_list_update)
  next
    case False
    with Some assms show ?thesis by (simp add: release_invalid)
  qed
qed

lemma reset_generation:
  assumes "reset clr h s = Inr (h1, s1)"
  shows "length (heap s1) = length (heap s) \<and>
         (\<forall>b. storage h = Some b \<longrightarrow> b < length (heap s)) \<and>
         (\<forall>a<length (heap s). generation (heap s1 ! a) =
              generation (heap s ! a) + (if storage h = Some a then 1 else 0))"
proof (cases "storage h")
  case None
  with assms show ?thesis by (simp add: reset_empty)
next
  case (Some b)
  from assms Some obtain u where u: "parent h = Some u"
    by (cases "parent h") (auto simp: reset_def)
  from assms obtain t where r: "release clr h s = Inr (t, s1)"
    by (cases "release clr h s") (auto simp: reset_closed [OF Some u])
  from release_generation [OF r] Some show ?thesis
    by auto
qed

lemma exec_generation:
  assumes "exec clr dflt c s = Inr s1"
  shows "length (heap s) \<le> length (heap s1) \<and>
         (\<forall>a. retires a c \<longrightarrow> a < length (heap s)) \<and>
         (\<forall>a<length (heap s1). generation (heap s1 ! a) =
            (if a < length (heap s) then generation (heap s ! a) else 1) +
            (if retires a c then 1 else 0))"
proof (cases c)
  case (Create v)
  with assms obtain h where "create dflt v s = Inr (h, s1)"
    by (cases "create dflt v s") auto
  from create_generation [OF this] Create show ?thesis by simp
next
  case Create_empty
  with assms obtain h where "create_empty dflt s = Inr (h, s1)"
    by (cases "create_empty dflt s") auto
  from create_empty_generation [OF this] Create_empty show ?thesis by simp
next
  case (Release h)
  with assms obtain h1 where "release clr h s = Inr (h1, s1)"
    by (cases "release clr h s") auto
  from release_generation [OF this] Release show ?thesis by auto
next
  case (Reset h)
  with assms obtain h1 where "reset clr h s = Inr (h1, s1)"
    by (cases "reset clr h s") auto
  from reset_generation [OF this] Reset show ?thesis by auto
qed (use assms in \<open>auto simp: and_then_def set_check_empty_def split: sum.splits\<close>)

lemma run_generation:
  "run clr dflt cs s = Inr s' \<Longrightarrow>
   length (heap s) \<le> length (heap s') \<and>
   (\<forall>a<length (heap s'). generation (heap s' ! a) =
      (if a < length (heap s) then generation (heap s ! a) else 1) + of_nat (retirements a cs))"
proof (induction cs arbitrary: s)
  case Nil
  then show ?case by (simp add: retirements_def)
next
  case (Cons c cs)
  from Cons.prems obtain s1 where e: "exec clr dflt c s = Inr s1" and r: "run clr dflt cs s1 = Inr s'"
    by (cases "exec clr dflt c s") auto
  note E = exec_generation [OF e] and R = Cons.IH [OF r]
  have "generation (heap s' ! a) =
      (if a < length (heap s) then generation (heap s ! a) else 1) + of_nat (retirements a (c # cs))"
    if a: "a < length (heap s')" for a
  proof (cases "a < length (heap s1)")
    case True
    with E R a show ?thesis
      by (simp add: retirements_def)
  next
    case False
    with E have "\<not> retires a c" "\<not> a < length (heap s)" by auto
    with R a False show ?thesis
      by (simp add: retirements_def)
  qed
  with E R show ?case by simp
qed

subsection \<open>The 32-bit counter and the recycling client\<close>

lemma sint_Suc:
  fixes g :: int32
  assumes "sint g < 2147483647"
  shows "sint (g + 1) = sint g + 1"
proof -
  have "- (2 ^ 31) \<le> sint g"
    using sint_ge [of g] by simp
  then have "signed_take_bit 31 (sint g + 1) = sint g + 1"
    using assms by (intro signed_take_bit_int_eq_self) simp_all
  then show ?thesis
    by (simp add: sint_word_ariths)
qed

lemma sint_one_plus:
  assumes "n < 2147483647"
  shows "sint (1 + of_nat n :: int32) = 1 + int n"
proof -
  have "(1 + of_nat n :: int32) = word_of_int (1 + int n)"
    by simp
  moreover have "signed_take_bit 31 (1 + int n) = 1 + int n"
    using assms by (intro signed_take_bit_int_eq_self) simp_all
  ultimately show ?thesis
    by (simp only: sint_sbintrunc') simp
qed

lemma of_nat_int32_eq_0: "(of_nat n :: int32) = 0 \<longleftrightarrow> 4294967296 dvd n"
  using word_of_nat_eq_0_iff [of n, where 'a = 32] by simp

lemma release_facts:
  assumes "storage h = Some a" "valid_ptr s a"
  obtains s1 where "release clr h s = Inr (h\<lparr>storage := None\<rparr>, s1)"
    "head s1 = Some a" "valid_ptr s1 a" "length (heap s1) = length (heap s)"
    "generation (heap s1 ! a) = generation (heap s ! a) + 1"
    "data (heap s1 ! a) = clr (data (heap s ! a))"
    "next_ptr (heap s1 ! a) = head s"
    "retire_log s1 = retire_log s @
       [Generation_fetch_add a, Fence_release, Data_clear a, Free_list_push a]"
proof
  let ?s1 = "s\<lparr>heap := (heap s)[a := \<lparr>data = clr (data (heap s ! a)), next_ptr = head s,
                                   generation = generation (heap s ! a) + 1\<rparr>],
            head := Some a,
            weak_cas_failures := after_cas (weak_cas_failures s),
            retire_log := retire_log s @
              [Generation_fetch_add a, Fence_release, Data_clear a, Free_list_push a]\<rparr>"
  show "release clr h s = Inr (h\<lparr>storage := None\<rparr>, ?s1)"
    by (rule release_closed [OF assms])
  show "head ?s1 = Some a" "valid_ptr ?s1 a" "length (heap ?s1) = length (heap s)"
    "generation (heap ?s1 ! a) = generation (heap s ! a) + 1"
    "data (heap ?s1 ! a) = clr (data (heap s ! a))"
    "next_ptr (heap ?s1 ! a) = head s"
    "retire_log ?s1 = retire_log s @
       [Generation_fetch_add a, Fence_release, Data_clear a, Free_list_push a]"
    using assms(2) by (simp_all add: valid_ptr_def)
qed

lemma create_reuse_facts:
  assumes "head s = Some a" "valid_ptr s a"
  obtains s1 where "create dflt v s = Inr (\<lparr>storage = Some a, parent = Some ()\<rparr>, s1)"
    "head s1 = next_ptr (heap s ! a)" "valid_ptr s1 a" "length (heap s1) = length (heap s)"
    "generation (heap s1 ! a) = generation (heap s ! a)"
    "data (heap s1 ! a) = v"
    "retire_log s1 = retire_log s"
proof
  let ?s1 = "s\<lparr>heap := (heap s)[a := (heap s ! a)\<lparr>data := v\<rparr>],
            head := next_ptr (heap s ! a),
            weak_cas_failures := after_cas (weak_cas_failures s)\<rparr>"
  show "create dflt v s = Inr (\<lparr>storage = Some a, parent = Some ()\<rparr>, ?s1)"
    by (rule create_reuse [OF assms])
  show "head ?s1 = next_ptr (heap s ! a)" "valid_ptr ?s1 a" "length (heap ?s1) = length (heap s)"
    "generation (heap ?s1 ! a) = generation (heap s ! a)"
    "data (heap ?s1 ! a) = v"
    "retire_log ?s1 = retire_log s"
    using assms(2) by (simp_all add: valid_ptr_def)
qed

lemma recycle_generation:
  "storage h = Some a \<Longrightarrow> valid_ptr s a \<Longrightarrow>
   \<exists>h' s'. recycle n clr dflt v (h, s) = Inr (h', s') \<and> storage h' = Some a \<and>
     valid_ptr s' a \<and> generation (heap s' ! a) = generation (heap s ! a) + of_nat n \<and>
     (0 < n \<longrightarrow> data (heap s' ! a) = v)"
proof (induction n arbitrary: h s)
  case 0
  then show ?case by simp
next
  case (Suc n)
  obtain s1 where r: "release clr h s = Inr (h\<lparr>storage := None\<rparr>, s1)"
    and s1: "head s1 = Some a" "valid_ptr s1 a"
    and g1: "generation (heap s1 ! a) = generation (heap s ! a) + 1"
    by (rule release_facts [OF Suc.prems])
  obtain s2 where c: "create dflt v s1 = Inr (\<lparr>storage = Some a, parent = Some ()\<rparr>, s2)"
    and s2: "valid_ptr s2 a"
    and g2: "generation (heap s2 ! a) = generation (heap s1 ! a)" "data (heap s2 ! a) = v"
    by (rule create_reuse_facts [OF s1])
  have "storage \<lparr>storage = Some a, parent = Some ()\<rparr> = Some a"
    by simp
  from Suc.IH [OF this s2] obtain h' s' where
    rec: "recycle n clr dflt v (\<lparr>storage = Some a, parent = Some ()\<rparr>, s2) = Inr (h', s')" and
    res: "storage h' = Some a" "valid_ptr s' a"
      "generation (heap s' ! a) = generation (heap s2 ! a) + of_nat n"
      "0 < n \<longrightarrow> data (heap s' ! a) = v"
    by blast
  have d: "data (heap s' ! a) = v"
  proof (cases n)
    case 0
    with rec g2 show ?thesis by simp
  next
    case (Suc m)
    with res show ?thesis by simp
  qed
  have "recycle (Suc n) clr dflt v (h, s) = Inr (h', s')"
    by (simp add: r c rec)
  with res d show ?case
    by (simp add: g1 g2)
qed

subsection \<open>Observing Handles across calls\<close>

lemma create_facts:
  assumes "head s = None \<or> (\<exists>r. head s = Some r \<and> valid_ptr s r)"
  obtains a s1 where "create dflt v s = Inr (\<lparr>storage = Some a, parent = Some ()\<rparr>, s1)"
    "valid_ptr s1 a" "data (heap s1 ! a) = v"
    "head s = None \<longrightarrow> a = length (heap s)" "head s \<noteq> None \<longrightarrow> head s = Some a"
proof (cases "head s")
  case None
  let ?c = "length (heap s)"
  let ?s1 = "init_data ?c v (snd (allocate_chunk dflt s))"
  have "create dflt v s = Inr (\<lparr>storage = Some ?c, parent = Some ()\<rparr>, ?s1)"
    by (rule create_fresh [OF None])
  moreover have "valid_ptr ?s1 ?c"
    by (simp add: valid_ptr_def fresh_chunk_fields CHUNK_SIZE_def)
  moreover have "data (heap ?s1 ! ?c) = v"
    by (simp add: init_data_nth fresh_chunk_fields CHUNK_SIZE_def)
  ultimately show ?thesis
    using that None by simp
next
  case (Some r)
  with assms have v: "valid_ptr s r" by simp
  obtain s1 where "create dflt v s = Inr (\<lparr>storage = Some r, parent = Some ()\<rparr>, s1)"
    "valid_ptr s1 r" "data (heap s1 ! r) = v"
    by (rule create_reuse_facts [OF Some v])
  then show ?thesis
    using that Some by simp
qed

lemma get_weak_valid:
  "storage h = Some a \<Longrightarrow> valid_ptr s a \<Longrightarrow>
   get_weak h s = Inr \<lparr>w_generation = generation (heap s ! a), w_storage = Some a\<rparr>"
  by (simp add: get_weak_def)

lemma is_alive_valid:
  "w_storage w = Some a \<Longrightarrow> valid_ptr s a \<Longrightarrow>
   is_alive w s = Inr (w_generation w = generation (heap s ! a))"
  by (simp add: is_alive_def)

lemma valid_ptr_mono: "valid_ptr s a \<Longrightarrow> length (heap s) \<le> length (heap s') \<Longrightarrow> valid_ptr s' a"
  by (simp add: valid_ptr_def)

text \<open>
  A handle minted in state \<open>s\<close> is alive after a sequence of calls exactly when the
  number of retirements of its slot in the sequence is a multiple of \<open>2 ^ 32\<close>.
\<close>

lemma is_alive_after_run:
  assumes w: "w_storage w = Some a" "w_generation w = generation (heap s ! a)"
    and v: "valid_ptr s a" and r: "run clr dflt cs s = Inr s'"
  shows "is_alive w s' = Inr (4294967296 dvd retirements a cs)"
proof -
  from run_generation [OF r] v
  have len: "length (heap s) \<le> length (heap s')"
    and g: "generation (heap s' ! a) = generation (heap s ! a) + of_nat (retirements a cs)"
    by (simp_all add: valid_ptr_def)
  have "valid_ptr s' a"
    using v len by (rule valid_ptr_mono)
  then have "is_alive w s' = Inr (generation (heap s ! a) = generation (heap s ! a) + of_nat (retirements a cs))"
    using w g by (simp add: is_alive_valid)
  then show ?thesis
    by (simp add: of_nat_int32_eq_0)
qed

subsection \<open>Slots that no call can reach\<close>

lemma linked_valid: "linked h p a \<Longrightarrow> a < length h"
  by (induction rule: linked.induct) simp_all

lemma linked_same_links:
  assumes "length h' = length h"
    and "\<And>i. i < length h \<Longrightarrow> next_ptr (h' ! i) = next_ptr (h ! i)"
  shows "linked h' p a \<Longrightarrow> linked h p a"
proof (induction rule: linked.induct)
  case (here a)
  then show ?case using assms(1) by (simp add: linked.here)
next
  case (step b a)
  then show ?case using assms by (simp add: linked.step)
qed

lemma linked_push:
  assumes len: "length h' = length h"
    and same: "\<And>i. i < length h \<Longrightarrow> i \<noteq> b \<Longrightarrow> next_ptr (h' ! i) = next_ptr (h ! i)"
    and new: "next_ptr (h' ! b) = q"
  shows "linked h' p a \<Longrightarrow>
         (\<forall>x. linked h p x \<longrightarrow> x = b \<or> linked h q x) \<longrightarrow> a = b \<or> linked h q a"
proof (induction rule: linked.induct)
  case (here a)
  then show ?case using len by (auto intro: linked.here)
next
  case (step c a)
  show ?case
  proof (cases "c = b")
    case True
    with step.IH new show ?thesis by simp
  next
    case False
    with step.hyps(1) len have c: "next_ptr (h' ! c) = next_ptr (h ! c)" "c < length h"
      using same [of c] by simp_all
    show ?thesis
    proof
      assume reach: "\<forall>x. linked h (Some c) x \<longrightarrow> x = b \<or> linked h q x"
      have "\<forall>x. linked h (next_ptr (h' ! c)) x \<longrightarrow> x = b \<or> linked h q x"
        using reach c by (auto intro: linked.step)
      with step.IH show "a = b \<or> linked h q a" by simp
    qed
  qed
qed

lemma init_data_free_list:
  assumes "on_free_list (init_data r v s) a"
  shows "on_free_list s a"
proof -
  have "next_ptr (heap (init_data r v s) ! i) = next_ptr (heap s ! i)" if "i < length (heap s)" for i
    using that by (simp add: init_data_nth)
  from linked_same_links [where h' = "heap (init_data r v s)" and h = "heap s"
      and p = "head s" and a = a, OF _ this] assms
  show ?thesis
    by (simp add: on_free_list_def)
qed

text \<open>
  A slot that is allocated, is not on the free list and is not retired by the call keeps
  its content, and the call does not put it on the free list.
\<close>

lemma get_storage_leak:
  assumes a: "valid_ptr s a" "\<not> on_free_list s a"
    and g: "get_storage dflt s = Inr (r, s1)"
  shows "r \<noteq> a \<and> valid_ptr s1 a \<and> \<not> on_free_list s1 a \<and> heap s1 ! a = heap s ! a"
proof (cases "head s")
  case None
  then have "allocate_chunk dflt s = (r, s1)"
    using g by (simp add: get_storage_empty)
  then have s1: "s1 = snd (allocate_chunk dflt s)" and r: "r = fst (allocate_chunk dflt s)"
    by simp_all
  show ?thesis
    using a(1) by (simp add: s1 r fresh_chunk_fields fresh_chunk_old valid_ptr_def
        fresh_chunk_free_list [OF None])
next
  case (Some res)
  show ?thesis
  proof (cases "valid_ptr s res")
    case True
    then have res: "on_free_list s res"
      by (simp add: on_free_list_def Some valid_ptr_def linked.here)
    have "\<not> linked (heap s) (next_ptr (heap s ! res)) a"
      using a(2) True by (auto simp: on_free_list_def Some valid_ptr_def intro: linked.step)
    with Some True g a res show ?thesis
      by (auto simp: get_storage_pop valid_ptr_def on_free_list_def)
  next
    case False
    with Some g show ?thesis by (simp add: get_storage_invalid)
  qed
qed

lemma create_leak:
  assumes a: "valid_ptr s a" "\<not> on_free_list s a"
    and c: "create dflt v s = Inr (h, s1)"
  shows "storage h \<noteq> Some a \<and> valid_ptr s1 a \<and> \<not> on_free_list s1 a \<and> heap s1 ! a = heap s ! a"
proof -
  from c obtain r s0 where g: "get_storage dflt s = Inr (r, s0)"
    and h: "h = \<lparr>storage = Some r, parent = Some ()\<rparr>" and s1: "s1 = init_data r v s0"
    by (cases "get_storage dflt s") (auto simp: create_def)
  from get_storage_leak [OF a g]
  have *: "r \<noteq> a" "valid_ptr s0 a" "\<not> on_free_list s0 a" "heap s0 ! a = heap s ! a"
    by simp_all
  then show ?thesis
    using init_data_free_list [of r v s0 a]
    by (auto simp: h s1 valid_ptr_def init_data_nth)
qed

lemma create_empty_leak:
  assumes a: "valid_ptr s a" "\<not> on_free_list s a"
    and c: "create_empty dflt s = Inr (h, s1)"
  shows "storage h \<noteq> Some a \<and> valid_ptr s1 a \<and> \<not> on_free_list s1 a \<and> heap s1 ! a = heap s ! a"
proof -
  from c obtain r where g: "get_storage dflt s = Inr (r, s1)"
    and h: "h = \<lparr>storage = Some r, parent = Some ()\<rparr>"
    by (cases "get_storage dflt s") (auto simp: create_empty_def)
  from get_storage_leak [OF a g] show ?thesis
    by (simp add: h)
qed

lemma release_leak:
  assumes a: "valid_ptr s a" "\<not> on_free_list s a"
    and h: "storage h \<noteq> Some a"
    and r: "release clr h s = Inr (h1, s1)"
  shows "valid_ptr s1 a \<and> \<not> on_free_list s1 a \<and> heap s1 ! a = heap s ! a"
proof -
  from r obtain b where b: "storage h = Some b"
    by (cases "storage h") (auto simp: release_null)
  with r have v: "valid_ptr s b"
    by (cases "valid_ptr s b") (auto simp: release_invalid)
  let ?h' = "(heap s)[b := \<lparr>data = clr (data (heap s ! b)), next_ptr = head s,
                                   generation = generation (heap s ! b) + 1\<rparr>]"
  from r b v have s1: "heap s1 = ?h'" "head s1 = Some b"
    by (auto simp: release_closed)
  have ba: "a \<noteq> b" using b h by auto
  have bl: "b < length (heap s)" using v by (simp add: valid_ptr_def)
  have "\<not> linked ?h' (Some b) a"
  proof
    assume "linked ?h' (Some b) a"
    then have "linked ?h' (head s) a"
      using ba bl by (simp add: linked_Some [of ?h' b])
    from linked_push [where h' = ?h' and h = "heap s" and b = b and q = "head s", OF _ _ _ this]
    have "a = b \<or> linked (heap s) (head s) a"
      using bl by simp
    with ba a(2) show False
      by (simp add: on_free_list_def)
  qed
  then show ?thesis
    using a(1) ba by (simp add: on_free_list_def s1 valid_ptr_def)
qed

lemma reset_leak:
  assumes a: "valid_ptr s a" "\<not> on_free_list s a"
    and h: "storage h \<noteq> Some a"
    and r: "reset clr h s = Inr (h1, s1)"
  shows "valid_ptr s1 a \<and> \<not> on_free_list s1 a \<and> heap s1 ! a = heap s ! a"
proof (cases "storage h")
  case None
  with r a show ?thesis by (simp add: reset_empty)
next
  case (Some b)
  from r Some obtain u where u: "parent h = Some u"
    by (cases "parent h") (auto simp: reset_def)
  from r obtain t where "release clr h s = Inr (t, s1)"
    by (cases "release clr h s") (auto simp: reset_closed [OF Some u])
  from release_leak [OF a h this] show ?thesis .
qed

lemma exec_leak:
  assumes a: "valid_ptr s a" "\<not> on_free_list s a"
    and c: "\<not> retires a c"
    and e: "exec clr dflt c s = Inr s1"
  shows "valid_ptr s1 a \<and> \<not> on_free_list s1 a \<and> heap s1 ! a = heap s ! a"
proof (cases c)
  case (Create v)
  with e obtain h where "create dflt v s = Inr (h, s1)"
    by (cases "create dflt v s") auto
  from create_leak [OF a this] show ?thesis by simp
next
  case Create_empty
  with e obtain h where "create_empty dflt s = Inr (h, s1)"
    by (cases "create_empty dflt s") auto
  from create_empty_leak [OF a this] show ?thesis by simp
next
  case (Release h)
  with e obtain h1 where "release clr h s = Inr (h1, s1)"
    by (cases "release clr h s") auto
  from release_leak [OF a _ this] c Release show ?thesis by simp
next
  case (Reset h)
  with e obtain h1 where "reset clr h s = Inr (h1, s1)"
    by (cases "reset clr h s") auto
  from reset_leak [OF a _ this] c Reset show ?thesis by simp
qed (use a e in \<open>auto simp: and_then_def set_check_empty_def valid_ptr_def on_free_list_def
      split: sum.splits\<close>)

lemma run_leak:
  "valid_ptr s a \<Longrightarrow> \<not> on_free_list s a \<Longrightarrow> \<forall>c\<in>set cs. \<not> retires a c \<Longrightarrow>
   run clr dflt cs s = Inr s' \<Longrightarrow>
   valid_ptr s' a \<and> \<not> on_free_list s' a \<and> heap s' ! a = heap s ! a"
proof (induction cs arbitrary: s)
  case Nil
  then show ?case by simp
next
  case (Cons c cs)
  from Cons.prems(4) obtain s1 where e: "exec clr dflt c s = Inr s1"
    and r: "run clr dflt cs s1 = Inr s'"
    by (cases "exec clr dflt c s") auto
  from exec_leak [OF Cons.prems(1,2) _ e] Cons.prems(3)
  have s1: "valid_ptr s1 a" "\<not> on_free_list s1 a" "heap s1 ! a = heap s ! a"
    by simp_all
  from Cons.IH [OF s1(1,2) _ r] Cons.prems(3) s1(3) show ?case
    by simp
qed


section \<open>The claims\<close>

text \<open>
  C1, as the code has it. For a handle that holds a slot, \<^verbatim>\<open>ObjectPool::release\<close>
  performs its steps in this order: it increments the slot's generation (relaxed), issues
  the release fence, then runs the element's \<^verbatim>\<open>clear()\<close>, and last pushes the slot onto
  the free list. When the teardown starts the generation is already the new one and the
  data is still the old one.
\<close>

theorem C1_release_order:
  "storage h = Some a \<Longrightarrow> valid_ptr s a \<Longrightarrow>
   \<exists>h' s'. release clr h s = Inr (h', s') \<and>
     retire_log s' =
       retire_log s @ [Generation_fetch_add a, Fence_release, Data_clear a, Free_list_push a] \<and>
     destroy_data clr a s = data_clear clr a (fence_release (generation_fetch_add a s)) \<and>
     generation (heap (fence_release (generation_fetch_add a s)) ! a) = generation (heap s ! a) + 1 \<and>
     data (heap (fence_release (generation_fetch_add a s)) ! a) = data (heap s ! a) \<and>
     storage h' = None \<and> head s' = Some a \<and>
     generation (heap s' ! a) = generation (heap s ! a) + 1 \<and>
     data (heap s' ! a) = clr (data (heap s ! a)) \<and>
     next_ptr (heap s' ! a) = head s"
  by (simp add: release_closed destroy_data_def fence_release_def generation_fetch_add_def
      log_event_def valid_ptr_def)

theorem C1_release_order_witness:
  "\<exists>s1 h' s'.
     create (0::nat) 5 (new_pool []) = Inr (\<lparr>storage = Some 0, parent = Some ()\<rparr>, s1) \<and>
     release (\<lambda>d. 0) \<lparr>storage = Some 0, parent = Some ()\<rparr> s1 = Inr (h', s') \<and>
     retire_log s' = [Generation_fetch_add 0, Fence_release, Data_clear 0, Free_list_push 0] \<and>
     generation (heap s' ! 0) = 2 \<and> data (heap s' ! 0) = 0 \<and> head s' = Some 0"
proof -
  obtain s1 :: "nat ObjectPool" where
    c: "create 0 5 (new_pool []) = Inr (\<lparr>storage = Some 0, parent = Some ()\<rparr>, s1)"
    and v: "valid_ptr s1 0" and g: "generation (heap s1 ! 0) = 1" and l: "retire_log s1 = []"
    by (rule first_create)
  have st: "storage \<lparr>storage = Some 0, parent = Some ()\<rparr> = Some 0"
    by simp
  from C1_release_order [OF st v, of "\<lambda>d. 0"] c g l show ?thesis
    by auto
qed

text \<open>
  C1 as stated puts the teardown before the increment. The first element of a new pool,
  retired at once, shows the order of the code.
\<close>

theorem C1_teardown_first_counterexample:
  "and_then (create (0::nat) 5 (new_pool []))
     (\<lambda>(h, s). and_then (release (\<lambda>d. 0) h s) (\<lambda>(h', s'). Inr (retire_log s')))
     = Inr [Generation_fetch_add 0, Fence_release, Data_clear 0, Free_list_push 0] \<and>
   and_then (create (0::nat) 5 (new_pool []))
     (\<lambda>(h, s). and_then (release (\<lambda>d. 0) h s) (\<lambda>(h', s'). Inr (retire_log s')))
     \<noteq> Inr [Data_clear 0, Generation_fetch_add 0, Fence_release, Free_list_push 0]"
proof -
  obtain s1 :: "nat ObjectPool" where
    c: "create 0 5 (new_pool []) = Inr (\<lparr>storage = Some 0, parent = Some ()\<rparr>, s1)"
    and v: "valid_ptr s1 0" and l: "retire_log s1 = []"
    by (rule first_create)
  have st: "storage \<lparr>storage = Some 0, parent = Some ()\<rparr> = Some 0"
    by simp
  show ?thesis
    by (simp add: c release_closed [OF st v] l)
qed

text \<open>
  C2. \<^verbatim>\<open>WeakPtr::is_alive\<close> returns false for an empty handle (null slot reference).
  For a handle that refers to a slot it returns true exactly when the generation stored
  in the handle equals the generation the slot has now.
\<close>

theorem C2_is_alive:
  "(w_storage w = None \<longrightarrow> is_alive w s = Inr False) \<and>
   (w_storage w = Some a \<and> valid_ptr s a \<longrightarrow>
      is_alive w s = Inr (w_generation w = generation (heap s ! a)))"
  by (simp add: is_alive_def)

theorem C2_is_alive_witness:
  "and_then (create (0::nat) 5 (new_pool []))
     (\<lambda>(h, s). Inr (is_alive WeakPtr_default s,
                     is_alive \<lparr>w_generation = 1, w_storage = Some 0\<rparr> s,
                     is_alive \<lparr>w_generation = 2, w_storage = Some 0\<rparr> s))
   = Inr (Inr False, Inr True, Inr False)"
proof -
  obtain s1 :: "nat ObjectPool" where
    c: "create 0 5 (new_pool []) = Inr (\<lparr>storage = Some 0, parent = Some ()\<rparr>, s1)"
    and v: "valid_ptr s1 0" and g: "generation (heap s1 ! 0) = 1"
    by (rule first_create)
  have "is_alive WeakPtr_default s1 = Inr False"
    using C2_is_alive [of WeakPtr_default s1] by (simp add: WeakPtr_default_def)
  moreover have "is_alive \<lparr>w_generation = 1, w_storage = Some 0\<rparr> s1 = Inr True"
    using C2_is_alive [of "\<lparr>w_generation = 1, w_storage = Some 0\<rparr>" s1 0] v g by simp
  moreover have "is_alive \<lparr>w_generation = 2, w_storage = Some 0\<rparr> s1 = Inr False"
    using C2_is_alive [of "\<lparr>w_generation = 2, w_storage = Some 0\<rparr>" s1 0] v g by simp
  ultimately show ?thesis
    by (simp add: c)
qed

text \<open>
  C3, as the code has it. A slot is constructed with generation 1. Retiring the element of a slot adds
  exactly 1 to that slot's generation, by the 32-bit \<^verbatim>\<open>fetch_add\<close> (as a signed value
  the new generation is the old one plus 1 unless the old one is 2147483647), and leaves
  the generation of every other slot alone. Nothing else changes a generation: after any
  sequence of calls, the generation of a slot is its generation of before (1 for a slot
  allocated during the sequence) plus the number of retirements of that slot in the
  sequence, so calls that create, dereference, mint an Observing Handle, move or set the
  flag leave it as it is.
\<close>

theorem C3_generation_counter:
  "generation (Storage_default dflt) = 1 \<and>
   (storage h = Some a \<and> valid_ptr s a \<longrightarrow>
      (\<exists>h1 s1. release clr h s = Inr (h1, s1) \<and>
         generation (heap s1 ! a) = generation (heap s ! a) + 1 \<and>
         (sint (generation (heap s ! a)) < 2147483647 \<longrightarrow>
            sint (generation (heap s1 ! a)) = sint (generation (heap s ! a)) + 1) \<and>
         (\<forall>b<length (heap s). b \<noteq> a \<longrightarrow> generation (heap s1 ! b) = generation (heap s ! b)))) \<and>
   (run clr dflt cs s = Inr s' \<longrightarrow>
      length (heap s) \<le> length (heap s') \<and>
      (\<forall>b<length (heap s'). generation (heap s' ! b) =
         (if b < length (heap s) then generation (heap s ! b) else 1) + of_nat (retirements b cs)) \<and>
      (\<forall>b<length (heap s). retirements b cs = 0 \<longrightarrow>
         generation (heap s' ! b) = generation (heap s ! b)))"
proof -
  have one: "generation (Storage_default dflt) = 1"
    by (simp add: Storage_default_def)
  have rel: "\<exists>h1 s1. release clr h s = Inr (h1, s1) \<and>
         generation (heap s1 ! a) = generation (heap s ! a) + 1 \<and>
         (sint (generation (heap s ! a)) < 2147483647 \<longrightarrow>
            sint (generation (heap s1 ! a)) = sint (generation (heap s ! a)) + 1) \<and>
         (\<forall>b<length (heap s). b \<noteq> a \<longrightarrow> generation (heap s1 ! b) = generation (heap s ! b))"
    if h: "storage h = Some a" and v: "valid_ptr s a"
  proof -
    obtain s1 where r: "release clr h s = Inr (h\<lparr>storage := None\<rparr>, s1)"
      and g: "generation (heap s1 ! a) = generation (heap s ! a) + 1"
      by (rule release_facts [OF h v])
    from release_generation [OF r] h
    have others: "\<forall>b<length (heap s). b \<noteq> a \<longrightarrow> generation (heap s1 ! b) = generation (heap s ! b)"
      by auto
    show ?thesis
      using r g others by (auto simp: sint_Suc)
  qed
  have seq: "length (heap s) \<le> length (heap s') \<and>
      (\<forall>b<length (heap s'). generation (heap s' ! b) =
         (if b < length (heap s) then generation (heap s ! b) else 1) + of_nat (retirements b cs)) \<and>
      (\<forall>b<length (heap s). retirements b cs = 0 \<longrightarrow>
         generation (heap s' ! b) = generation (heap s ! b))"
    if "run clr dflt cs s = Inr s'"
    using run_generation [OF that] by auto
  show ?thesis
    using one rel seq by blast
qed

theorem C3_generation_counter_witness:
  "\<exists>s1 h2 s2 s'.
     create (0::nat) 5 (new_pool []) = Inr (\<lparr>storage = Some 0, parent = Some ()\<rparr>, s1) \<and>
     generation (heap s1 ! 0) = 1 \<and>
     release (\<lambda>d. 0) \<lparr>storage = Some 0, parent = Some ()\<rparr> s1 = Inr (h2, s2) \<and>
     generation (heap s2 ! 0) = 2 \<and> sint (generation (heap s2 ! 0)) = 2 \<and>
     generation (heap s2 ! 1) = 1 \<and>
     run (\<lambda>d. 0) 0
       [Create 5, Get_weak \<lparr>storage = Some 0, parent = Some ()\<rparr>,
        Get \<lparr>storage = Some 0, parent = Some ()\<rparr>, Move \<lparr>storage = Some 0, parent = Some ()\<rparr>,
        Release \<lparr>storage = Some 0, parent = Some ()\<rparr>, Create 7, Set_check_empty True]
       (new_pool [] :: nat ObjectPool) = Inr s' \<and>
     generation (heap s' ! 0) = 2 \<and> generation (heap s' ! 63) = 1"
proof -
  let ?h = "\<lparr>storage = Some 0, parent = Some ()\<rparr>"
  let ?clr = "\<lambda>d::nat. 0::nat"
  let ?cs = "[Create 5, Get_weak ?h, Get ?h, Move ?h, Release ?h, Create 7, Set_check_empty True]
    :: nat command list"
  obtain s1 :: "nat ObjectPool" where
    c: "create 0 5 (new_pool []) = Inr (?h, s1)"
    and v: "valid_ptr s1 0" and g: "generation (heap s1 ! 0) = 1"
    and len: "length (heap s1) = CHUNK_SIZE"
    by (rule first_create)
  have st: "storage ?h = Some 0" by simp
  obtain s2 where r: "release ?clr ?h s1 = Inr (?h\<lparr>storage := None\<rparr>, s2)"
    and s2: "head s2 = Some 0" "valid_ptr s2 0" "length (heap s2) = length (heap s1)"
    by (rule release_facts [OF st v])
  obtain s3 where c3: "create 0 7 s2 = Inr (?h, s3)" and l3: "length (heap s3) = length (heap s2)"
    by (rule create_reuse_facts [OF s2(1,2)])
  have run: "run ?clr 0 ?cs (new_pool []) = Inr (set_check_empty True s3)"
    using v by (simp add: c r c3 get_weak_def OwnerPtr_get_def)
  have l': "length (heap (set_check_empty True s3)) = 64" "length (heap s1) = 64"
    by (simp_all add: set_check_empty_def l3 s2 len CHUNK_SIZE_def)
  have ret: "retirements 0 ?cs = 1" "retirements 63 ?cs = 0"
    by (simp_all add: retirements_def)
  have e: "length (heap (new_pool [] :: nat ObjectPool)) = 0"
    by (simp add: new_pool_def)
  have "\<forall>b<length (heap (set_check_empty True s3)).
      generation (heap (set_check_empty True s3) ! b) =
        (if b < length (heap (new_pool [] :: nat ObjectPool))
         then generation (heap (new_pool [] :: nat ObjectPool) ! b) else 1) +
        of_nat (retirements b ?cs)"
    using C3_generation_counter [where cs = ?cs and s = "new_pool []" and clr = ?clr
        and dflt = 0 and s' = "set_check_empty True s3"] run
    by blast
  then have A: "generation (heap (set_check_empty True s3) ! 0) = 2"
    "generation (heap (set_check_empty True s3) ! 63) = 1"
    using l' ret e by simp_all
  have "\<exists>h1 s1'. release ?clr ?h s1 = Inr (h1, s1') \<and>
         generation (heap s1' ! 0) = generation (heap s1 ! 0) + 1 \<and>
         (sint (generation (heap s1 ! 0)) < 2147483647 \<longrightarrow>
            sint (generation (heap s1' ! 0)) = sint (generation (heap s1 ! 0)) + 1) \<and>
         (\<forall>b<length (heap s1). b \<noteq> 0 \<longrightarrow> generation (heap s1' ! b) = generation (heap s1 ! b))"
    using C3_generation_counter [where h = ?h and a = 0 and s = s1 and clr = ?clr
        and dflt = 0 and cs = "[]" and s' = s1] st v
    by blast
  then obtain h2 s2' where B0: "release ?clr ?h s1 = Inr (h2, s2')"
    "generation (heap s2' ! 0) = generation (heap s1 ! 0) + 1"
    "sint (generation (heap s1 ! 0)) < 2147483647 \<longrightarrow>
            sint (generation (heap s2' ! 0)) = sint (generation (heap s1 ! 0)) + 1"
    "\<forall>b<length (heap s1). b \<noteq> 0 \<longrightarrow> generation (heap s2' ! b) = generation (heap s1 ! b)"
    by blast
  have B: "generation (heap s2' ! 0) = 2" "sint (generation (heap s2' ! 0)) = 2"
    "generation (heap s2' ! 1) = generation (heap s1 ! 1)"
    using B0 g l' by simp_all
  have "run ?clr 0 [Create 5] (new_pool []) = Inr s1"
    by (simp add: c)
  then have "\<forall>b<length (heap s1).
      generation (heap s1 ! b) =
        (if b < length (heap (new_pool [] :: nat ObjectPool))
         then generation (heap (new_pool [] :: nat ObjectPool) ! b) else 1) +
        of_nat (retirements b [Create 5 :: nat command])"
    using C3_generation_counter [where cs = "[Create 5]" and s = "new_pool []" and clr = ?clr
        and dflt = 0 and s' = s1]
    by blast
  then have g1: "generation (heap s1 ! 1) = 1"
    using l' e by (simp add: retirements_def)
  have g2: "generation (heap s2' ! 1) = 1"
    using B(3) g1 by simp
  show ?thesis
    by (intro exI conjI) (rule c g B0(1) B(1) B(2) g2 run A)+
qed

text \<open>
  C3 as stated fails when the 32-bit generation wraps around: as a signed value the
  counter does not always increase by 1. A client that holds the first element of a new
  pool and recycles it 2147483646 times leaves slot 0 with the generation 2147483647; the
  next retirement takes it to -2147483648.
\<close>

theorem C3_signed_wrap_counterexample:
  "and_then (create (0::nat) 5 (new_pool []))
     (\<lambda>(h, s1). and_then (recycle 2147483646 (\<lambda>d. 0) 0 7 (h, s1))
        (\<lambda>(h2, s2). and_then (release (\<lambda>d. 0) h2 s2)
           (\<lambda>(h3, s3). Inr (sint (generation (heap s2 ! 0)),
                              sint (generation (heap s3 ! 0))))))
   = Inr (2147483647, - 2147483648)"
proof -
  let ?h = "\<lparr>storage = Some 0, parent = Some ()\<rparr>"
  obtain s1 :: "nat ObjectPool" where
    c: "create 0 5 (new_pool []) = Inr (?h, s1)"
    and v: "valid_ptr s1 0" and g: "generation (heap s1 ! 0) = 1"
    by (rule first_create)
  have st: "storage ?h = Some 0" by simp
  from recycle_generation [OF st v, of 2147483646 "\<lambda>d. 0" 0 7]
  obtain h2 s2 where rec: "recycle 2147483646 (\<lambda>d. 0) 0 7 (?h, s1) = Inr (h2, s2)"
    and h2: "storage h2 = Some 0" and v2: "valid_ptr s2 0"
    and g2: "generation (heap s2 ! 0) = generation (heap s1 ! 0) + of_nat 2147483646"
    by auto
  have g2': "generation (heap s2 ! 0) = 2147483647"
    unfolding g2 g by simp
  obtain s3 where r: "release (\<lambda>d. 0) h2 s2 = Inr (h2\<lparr>storage := None\<rparr>, s3)"
    and g3: "generation (heap s3 ! 0) = generation (heap s2 ! 0) + 1"
    by (rule release_facts [OF h2 v2])
  have before: "sint (generation (heap s2 ! 0)) = 2147483647"
    unfolding g2' by simp
  have "generation (heap s3 ! 0) = 2147483648"
    unfolding g3 g2' by simp
  then have after: "sint (generation (heap s3 ! 0)) = - 2147483648"
    by simp
  show ?thesis
    by (simp only: c and_then_simps prod.case rec r before after)
qed

text \<open>
  C4, as the code has it. In a pool whose free list is empty or starts at an allocated
  slot, \<^verbatim>\<open>create\<close> returns a handle; an Observing Handle minted from it reports alive
  at once, and not alive right after the retirement of the element. The next
  \<^verbatim>\<open>create\<close> reuses the same slot, and the old Observing Handle still reports not
  alive. After any further sequence of calls the old handle reports alive exactly when
  the number of retirements of its slot since it was minted is a multiple of \<open>2 ^ 32\<close>: it
  reports not alive as long as that number is between 1 and \<open>2 ^ 32 - 1\<close>.
\<close>

theorem C4_stale_handle:
  "head s = None \<or> (\<exists>r. head s = Some r \<and> valid_ptr s r) \<Longrightarrow>
   \<exists>a s1 w.
     create dflt v s = Inr (\<lparr>storage = Some a, parent = Some ()\<rparr>, s1) \<and>
     get_weak \<lparr>storage = Some a, parent = Some ()\<rparr> s1 = Inr w \<and>
     is_alive w s1 = Inr True \<and>
     (\<exists>hA s2. release clr \<lparr>storage = Some a, parent = Some ()\<rparr> s1 = Inr (hA, s2) \<and>
        is_alive w s2 = Inr False \<and>
        (\<exists>s3. create dflt v' s2 = Inr (\<lparr>storage = Some a, parent = Some ()\<rparr>, s3) \<and>
           is_alive w s3 = Inr False)) \<and>
     (\<forall>cs s'. run clr dflt cs s1 = Inr s' \<longrightarrow>
        is_alive w s' = Inr (4294967296 dvd retirements a cs) \<and>
        (0 < retirements a cs \<and> retirements a cs < 4294967296 \<longrightarrow> is_alive w s' = Inr False))"
proof -
  assume "head s = None \<or> (\<exists>r. head s = Some r \<and> valid_ptr s r)"
  then obtain a s1 where c: "create dflt v s = Inr (\<lparr>storage = Some a, parent = Some ()\<rparr>, s1)"
    and v1: "valid_ptr s1 a"
    by (rule create_facts)
  let ?h = "\<lparr>storage = Some a, parent = Some ()\<rparr>"
  let ?w = "\<lparr>w_generation = generation (heap s1 ! a), w_storage = Some a\<rparr>"
  have st: "storage ?h = Some a" by simp
  have ws: "w_storage ?w = Some a" "w_generation ?w = generation (heap s1 ! a)" by simp_all
  have gw: "get_weak ?h s1 = Inr ?w"
    by (rule get_weak_valid [OF st v1])
  have alive1: "is_alive ?w s1 = Inr True"
    by (simp add: is_alive_valid [OF ws(1) v1])
  obtain s2 where r: "release clr ?h s1 = Inr (?h\<lparr>storage := None\<rparr>, s2)"
    and s2: "head s2 = Some a" "valid_ptr s2 a"
    and g2: "generation (heap s2 ! a) = generation (heap s1 ! a) + 1"
    by (rule release_facts [OF st v1])
  have dead2: "is_alive ?w s2 = Inr False"
    by (simp add: is_alive_valid [OF ws(1) s2(2)] g2)
  obtain s3 where c3: "create dflt v' s2 = Inr (?h, s3)" and v3: "valid_ptr s3 a"
    and g3: "generation (heap s3 ! a) = generation (heap s2 ! a)"
    by (rule create_reuse_facts [OF s2])
  have dead3: "is_alive ?w s3 = Inr False"
    by (simp add: is_alive_valid [OF ws(1) v3] g3 g2)
  have later: "is_alive ?w s' = Inr (4294967296 dvd retirements a cs) \<and>
        (0 < retirements a cs \<and> retirements a cs < 4294967296 \<longrightarrow> is_alive ?w s' = Inr False)"
    if "run clr dflt cs s1 = Inr s'" for cs s'
    using is_alive_after_run [OF ws v1 that] by (auto dest: nat_dvd_not_less)
  show ?thesis
    using c gw alive1 r dead2 c3 dead3 later by blast
qed

theorem C4_stale_handle_witness:
  "head (new_pool [] :: nat ObjectPool) = None \<and>
   (\<exists>s1 w hA s2 s3.
     create (0::nat) 5 (new_pool []) = Inr (\<lparr>storage = Some 0, parent = Some ()\<rparr>, s1) \<and>
     get_weak \<lparr>storage = Some 0, parent = Some ()\<rparr> s1 = Inr w \<and>
     is_alive w s1 = Inr True \<and>
     release (\<lambda>d. 0) \<lparr>storage = Some 0, parent = Some ()\<rparr> s1 = Inr (hA, s2) \<and>
     is_alive w s2 = Inr False \<and>
     create 0 7 s2 = Inr (\<lparr>storage = Some 0, parent = Some ()\<rparr>, s3) \<and>
     is_alive w s3 = Inr False \<and>
     run (\<lambda>d. 0) 0 [Release \<lparr>storage = Some 0, parent = Some ()\<rparr>, Create 7] s1 = Inr s3)"
proof -
  let ?s = "new_pool [] :: nat ObjectPool"
  let ?clr = "\<lambda>d::nat. 0::nat"
  have e: "head ?s = None"
    by (simp add: new_pool_def)
  then have "head ?s = None \<or> (\<exists>r. head ?s = Some r \<and> valid_ptr ?s r)"
    by simp
  from C4_stale_handle [OF this, of 0 5 ?clr 7]
  obtain a s1 w hA s2 s3 where
    c: "create 0 5 ?s = Inr (\<lparr>storage = Some a, parent = Some ()\<rparr>, s1)"
    and gw: "get_weak \<lparr>storage = Some a, parent = Some ()\<rparr> s1 = Inr w"
    and al: "is_alive w s1 = Inr True"
    and r: "release ?clr \<lparr>storage = Some a, parent = Some ()\<rparr> s1 = Inr (hA, s2)"
    and d2: "is_alive w s2 = Inr False"
    and c3: "create 0 7 s2 = Inr (\<lparr>storage = Some a, parent = Some ()\<rparr>, s3)"
    and d3: "is_alive w s3 = Inr False"
    by blast
  obtain s1' :: "nat ObjectPool" where
    "create 0 5 ?s = Inr (\<lparr>storage = Some 0, parent = Some ()\<rparr>, s1')"
    by (rule first_create)
  with c have a: "a = 0" by simp
  have run: "run ?clr 0 [Release \<lparr>storage = Some a, parent = Some ()\<rparr>, Create 7] s1 = Inr s3"
    by (simp add: r c3)
  show ?thesis
    using e c gw al r d2 c3 d3 run unfolding a by blast
qed

text \<open>
  C4 as stated fails when the 32-bit generation wraps around. Element A is the first
  element of a new pool and \<open>w\<close> its Observing Handle. The client retires A and then
  creates and retires elements in turn, \<open>2 ^ 32\<close> retirements in all, the last creation
  giving element B. B lives in the slot of A, holds its own value 7, and \<open>w\<close> reports
  alive.
\<close>

theorem C4_wraparound_counterexample:
  "and_then (create (0::nat) 5 (new_pool []))
     (\<lambda>(hA, s1). and_then (get_weak hA s1)
        (\<lambda>w. and_then (recycle 4294967296 (\<lambda>d. 0) 0 7 (hA, s1))
           (\<lambda>(hB, s2). and_then (is_alive w s2)
              (\<lambda>alive. Inr (alive, storage hB = storage hA, OwnerPtr_get hB s2)))))
   = Inr (True, True, Inr 7)"
proof -
  let ?h = "\<lparr>storage = Some 0, parent = Some ()\<rparr>"
  let ?w = "\<lparr>w_generation = 1, w_storage = Some 0\<rparr>"
  obtain s1 :: "nat ObjectPool" where
    c: "create 0 5 (new_pool []) = Inr (?h, s1)"
    and v: "valid_ptr s1 0" and g: "generation (heap s1 ! 0) = 1"
    by (rule first_create)
  have st: "storage ?h = Some 0" by simp
  have gw: "get_weak ?h s1 = Inr ?w"
    using get_weak_valid [OF st v] g by simp
  from recycle_generation [OF st v, of 4294967296 "\<lambda>d. 0" 0 7]
  obtain hB s2 where rec: "recycle 4294967296 (\<lambda>d. 0) 0 7 (?h, s1) = Inr (hB, s2)"
    and hB: "storage hB = Some 0" and v2: "valid_ptr s2 0"
    and g2: "generation (heap s2 ! 0) = generation (heap s1 ! 0) + of_nat 4294967296"
    and d2: "data (heap s2 ! 0) = 7"
    by auto
  have "(of_nat 4294967296 :: int32) = 0"
    by (simp only: of_nat_int32_eq_0) simp
  with g2 g have g2': "generation (heap s2 ! 0) = 1"
    by simp
  have alive: "is_alive ?w s2 = Inr True"
    using is_alive_valid [of ?w 0 s2] v2 g2' by simp
  have get: "OwnerPtr_get hB s2 = Inr 7"
    using hB v2 d2 by (simp add: OwnerPtr_get_def)
  show ?thesis
    by (simp only: c and_then_simps prod.case gw rec alive get hB st simp_thms)
qed

text \<open>
  C5, as the code has it. \<^verbatim>\<open>reset()\<close> and the destructor of an empty Owning Handle
  return the handle and the pool as they were: no slot changes, nothing is pushed and
  the log of retirement steps gains no entry. \<^verbatim>\<open>ObjectPool::release\<close> has no such
  guard: it calls \<^verbatim>\<open>destroy_data\<close> through the null pointer, which is undefined.
\<close>

theorem C5_empty_handle:
  "storage p = None \<Longrightarrow>
     reset clr p s = Inr (p, s) \<and> OwnerPtr_destroy clr p s = Inr (p, s) \<and>
     release clr p s = Inl Null_dereference"
  by (simp add: reset_empty OwnerPtr_destroy_def release_null)

theorem C5_empty_handle_witness:
  "storage OwnerPtr_default = None \<and>
   reset (\<lambda>d. 0) OwnerPtr_default (new_pool [] :: nat ObjectPool) = Inr (OwnerPtr_default, new_pool []) \<and>
   OwnerPtr_destroy (\<lambda>d. 0) OwnerPtr_default (new_pool [] :: nat ObjectPool) = Inr (OwnerPtr_default, new_pool []) \<and>
   release (\<lambda>d. 0) OwnerPtr_default (new_pool [] :: nat ObjectPool) = Inl Null_dereference"
proof -
  have e: "storage OwnerPtr_default = None"
    by (simp add: OwnerPtr_default_def)
  from C5_empty_handle [OF e, of "\<lambda>d. 0" "new_pool [] :: nat ObjectPool"] e
  show ?thesis by simp
qed

text \<open>
  C5 as stated fails for \<^verbatim>\<open>Pool.release\<close>: on an empty handle it is not a call that
  leaves the pool unchanged.
\<close>

theorem C5_release_empty_counterexample:
  "release (\<lambda>d. 0) OwnerPtr_default (new_pool [] :: nat ObjectPool)
     \<noteq> Inr (OwnerPtr_default, new_pool [])"
  by (simp add: release_null OwnerPtr_default_def)

text \<open>
  C6. A chunk is allocated when \<^verbatim>\<open>get_storage\<close> finds the free list empty. The call
  then appends exactly 64 slots with default data and generation 1 and leaves the old
  slots as they were. Slots 1 to 62 of the chunk form the free list, each pointing to the
  next and slot 62 to null; slot 63 heads the chunk list, pointing to the chunk list of
  before, and is not on the free list; slot 0 is the result and is not on the free list.
  The capacity counter grows by 64 (as a 32-bit counter), so 63 slots of the chunk can
  hold elements. \<^verbatim>\<open>allocate_chunk\<close> itself links slot 62 to the head it finds, which is
  null here. Slot 63 is never handed out: after any further sequence of calls that does
  not retire it (a client has no handle of it), it is not on the free list, and
  \<^verbatim>\<open>create\<close> and \<^verbatim>\<open>create_empty\<close> return another slot.
\<close>

theorem C6_chunk_allocation:
  "CHUNK_SIZE = 64 \<and>
   fst (allocate_chunk dflt s) = length (heap s) \<and>
   length (heap (snd (allocate_chunk dflt s))) = length (heap s) + 64 \<and>
   take (length (heap s)) (heap (snd (allocate_chunk dflt s))) = heap s \<and>
   (\<forall>k<64. data (heap (snd (allocate_chunk dflt s)) ! (length (heap s) + k)) = dflt \<and>
           generation (heap (snd (allocate_chunk dflt s)) ! (length (heap s) + k)) = 1) \<and>
   (\<forall>k. 1 \<le> k \<and> k < 62 \<longrightarrow>
        next_ptr (heap (snd (allocate_chunk dflt s)) ! (length (heap s) + k)) =
          Some (length (heap s) + k + 1)) \<and>
   next_ptr (heap (snd (allocate_chunk dflt s)) ! (length (heap s) + 62)) = head s \<and>
   next_ptr (heap (snd (allocate_chunk dflt s)) ! (length (heap s) + 63)) = chunk_list s \<and>
   next_ptr (heap (snd (allocate_chunk dflt s)) ! length (heap s)) = None \<and>
   head (snd (allocate_chunk dflt s)) = Some (length (heap s) + 1) \<and>
   chunk_list (snd (allocate_chunk dflt s)) = Some (length (heap s) + 63) \<and>
   storage_count (snd (allocate_chunk dflt s)) = storage_count s + 64 \<and>
   (head s = None \<longrightarrow>
      get_storage dflt s = Inr (allocate_chunk dflt s) \<and>
      next_ptr (heap (snd (allocate_chunk dflt s)) ! (length (heap s) + 62)) = None \<and>
      (\<forall>a. on_free_list (snd (allocate_chunk dflt s)) a \<longleftrightarrow>
             length (heap s) + 1 \<le> a \<and> a \<le> length (heap s) + 62) \<and>
      card {a. on_free_list (snd (allocate_chunk dflt s)) a} + 1 = 63 \<and>
      (\<forall>cs s'. (\<forall>c\<in>set cs. \<not> retires (length (heap s) + 63) c) \<and>
            run clr dflt cs (snd (allocate_chunk dflt s)) = Inr s' \<longrightarrow>
         \<not> on_free_list s' (length (heap s) + 63) \<and>
         (\<forall>v h s1. create dflt v s' = Inr (h, s1) \<longrightarrow> storage h \<noteq> Some (length (heap s) + 63)) \<and>
         (\<forall>h s1. create_empty dflt s' = Inr (h, s1) \<longrightarrow> storage h \<noteq> Some (length (heap s) + 63))))"
proof -
  let ?c = "length (heap s)"
  let ?s' = "snd (allocate_chunk dflt s)"
  have new: "\<And>k. k < 64 \<Longrightarrow> heap ?s' ! (?c + k) = chunk_slot dflt ?c (head s) (chunk_list s) k"
    by (simp add: fresh_chunk_new CHUNK_SIZE_def)
  have old: "take ?c (heap ?s') = heap s"
    by (simp add: allocate_chunk_closed)
  have slots: "\<forall>k<64. data (heap ?s' ! (?c + k)) = dflt \<and> generation (heap ?s' ! (?c + k)) = 1"
    by (simp add: new chunk_slot_def)
  have links: "\<forall>k. 1 \<le> k \<and> k < 62 \<longrightarrow> next_ptr (heap ?s' ! (?c + k)) = Some (?c + k + 1)"
    by (simp add: new chunk_slot_def CHUNK_SIZE_def)
  have ends: "next_ptr (heap ?s' ! (?c + 62)) = head s"
    "next_ptr (heap ?s' ! (?c + 63)) = chunk_list s"
    "next_ptr (heap ?s' ! ?c) = None"
    using new [of 62] new [of 63] new [of 0] by (simp_all add: chunk_slot_def CHUNK_SIZE_def)
  have free: "card {a. on_free_list ?s' a} + 1 = 63" if "head s = None"
  proof -
    have "{a. on_free_list ?s' a} = {?c + 1..?c + 62}"
      by (rule set_eqI) (simp add: fresh_chunk_free_list [OF that])
    then show ?thesis by simp
  qed
  have fl: "head s = None \<longrightarrow> (\<forall>a. on_free_list ?s' a \<longleftrightarrow> ?c + 1 \<le> a \<and> a \<le> ?c + 62)"
    by (simp add: fresh_chunk_free_list)
  have gs: "head s = None \<longrightarrow> get_storage dflt s = Inr (allocate_chunk dflt s)"
    by (simp add: get_storage_empty)
  have fields: "fst (allocate_chunk dflt s) = ?c" "length (heap ?s') = ?c + 64"
    "head ?s' = Some (?c + 1)" "chunk_list ?s' = Some (?c + 63)"
    "storage_count ?s' = storage_count s + 64"
    by (simp_all add: fresh_chunk_fields CHUNK_SIZE_def)
  have never: "\<forall>cs s'. (\<forall>c\<in>set cs. \<not> retires (?c + 63) c) \<and> run clr dflt cs ?s' = Inr s' \<longrightarrow>
         \<not> on_free_list s' (?c + 63) \<and>
         (\<forall>v h s1. create dflt v s' = Inr (h, s1) \<longrightarrow> storage h \<noteq> Some (?c + 63)) \<and>
         (\<forall>h s1. create_empty dflt s' = Inr (h, s1) \<longrightarrow> storage h \<noteq> Some (?c + 63))"
    if e: "head s = None"
  proof (intro allI impI)
    fix cs s'
    assume "(\<forall>c\<in>set cs. \<not> retires (?c + 63) c) \<and> run clr dflt cs ?s' = Inr s'"
    then have q: "\<forall>c\<in>set cs. \<not> retires (?c + 63) c" and r: "run clr dflt cs ?s' = Inr s'"
      by simp_all
    have v: "valid_ptr ?s' (?c + 63)"
      by (simp add: valid_ptr_def fields)
    have f: "\<not> on_free_list ?s' (?c + 63)"
      by (simp add: fresh_chunk_free_list [OF e])
    from run_leak [OF v f q r] have *: "valid_ptr s' (?c + 63)" "\<not> on_free_list s' (?c + 63)"
      by simp_all
    show "\<not> on_free_list s' (?c + 63) \<and>
         (\<forall>v h s1. create dflt v s' = Inr (h, s1) \<longrightarrow> storage h \<noteq> Some (?c + 63)) \<and>
         (\<forall>h s1. create_empty dflt s' = Inr (h, s1) \<longrightarrow> storage h \<noteq> Some (?c + 63))"
      using * create_leak [OF *] create_empty_leak [OF *] by blast
  qed
  have tail: "head s = None \<longrightarrow>
      get_storage dflt s = Inr (allocate_chunk dflt s) \<and>
      next_ptr (heap ?s' ! (?c + 62)) = None \<and>
      (\<forall>a. on_free_list ?s' a \<longleftrightarrow> ?c + 1 \<le> a \<and> a \<le> ?c + 62) \<and>
      card {a. on_free_list ?s' a} + 1 = 63 \<and>
      (\<forall>cs s'. (\<forall>c\<in>set cs. \<not> retires (?c + 63) c) \<and> run clr dflt cs ?s' = Inr s' \<longrightarrow>
         \<not> on_free_list s' (?c + 63) \<and>
         (\<forall>v h s1. create dflt v s' = Inr (h, s1) \<longrightarrow> storage h \<noteq> Some (?c + 63)) \<and>
         (\<forall>h s1. create_empty dflt s' = Inr (h, s1) \<longrightarrow> storage h \<noteq> Some (?c + 63)))"
  proof
    assume e: "head s = None"
    from gs e have 1: "get_storage dflt s = Inr (allocate_chunk dflt s)" by simp
    from ends(1) e have 2: "next_ptr (heap ?s' ! (?c + 62)) = None" by simp
    from fl e have 3: "\<forall>a. on_free_list ?s' a \<longleftrightarrow> ?c + 1 \<le> a \<and> a \<le> ?c + 62" by simp
    show "get_storage dflt s = Inr (allocate_chunk dflt s) \<and>
      next_ptr (heap ?s' ! (?c + 62)) = None \<and>
      (\<forall>a. on_free_list ?s' a \<longleftrightarrow> ?c + 1 \<le> a \<and> a \<le> ?c + 62) \<and>
      card {a. on_free_list ?s' a} + 1 = 63 \<and>
      (\<forall>cs s'. (\<forall>c\<in>set cs. \<not> retires (?c + 63) c) \<and> run clr dflt cs ?s' = Inr s' \<longrightarrow>
         \<not> on_free_list s' (?c + 63) \<and>
         (\<forall>v h s1. create dflt v s' = Inr (h, s1) \<longrightarrow> storage h \<noteq> Some (?c + 63)) \<and>
         (\<forall>h s1. create_empty dflt s' = Inr (h, s1) \<longrightarrow> storage h \<noteq> Some (?c + 63)))"
      by (intro conjI) (rule 1 2 3 free [OF e] never [OF e])+
  qed
  show ?thesis
    by (intro conjI) (rule CHUNK_SIZE_def fields old slots links ends tail)+
qed

theorem C6_chunk_allocation_witness:
  "head (new_pool [] :: nat ObjectPool) = None \<and>
   get_storage 0 (new_pool [] :: nat ObjectPool) = Inr (allocate_chunk 0 (new_pool [])) \<and>
   fst (allocate_chunk 0 (new_pool [] :: nat ObjectPool)) = 0 \<and>
   length (heap (snd (allocate_chunk 0 (new_pool [] :: nat ObjectPool)))) = 64 \<and>
   next_ptr (heap (snd (allocate_chunk 0 (new_pool [] :: nat ObjectPool))) ! 61) = Some 62 \<and>
   next_ptr (heap (snd (allocate_chunk 0 (new_pool [] :: nat ObjectPool))) ! 62) = None \<and>
   generation (heap (snd (allocate_chunk 0 (new_pool [] :: nat ObjectPool))) ! 63) = 1 \<and>
   on_free_list (snd (allocate_chunk 0 (new_pool [] :: nat ObjectPool))) 62 \<and>
   \<not> on_free_list (snd (allocate_chunk 0 (new_pool [] :: nat ObjectPool))) 63 \<and>
   \<not> on_free_list (snd (allocate_chunk 0 (new_pool [] :: nat ObjectPool))) 0 \<and>
   head (snd (allocate_chunk 0 (new_pool [] :: nat ObjectPool))) = Some 1 \<and>
   chunk_list (snd (allocate_chunk 0 (new_pool [] :: nat ObjectPool))) = Some 63 \<and>
   storage_count (snd (allocate_chunk 0 (new_pool [] :: nat ObjectPool))) = 64"
proof -
  let ?s = "new_pool [] :: nat ObjectPool"
  note T = C6_chunk_allocation [where dflt = 0 and s = ?s and clr = "\<lambda>d. 0"]
  have h: "head ?s = None" "length (heap ?s) = 0" "storage_count ?s = 0"
    by (simp_all add: new_pool_def)
  from T h(1) have F: "\<forall>a. on_free_list (snd (allocate_chunk 0 ?s)) a \<longleftrightarrow>
             length (heap ?s) + 1 \<le> a \<and> a \<le> length (heap ?s) + 62"
    and G: "get_storage 0 ?s = Inr (allocate_chunk 0 ?s)"
    and N: "next_ptr (heap (snd (allocate_chunk 0 ?s)) ! (length (heap ?s) + 62)) = None"
    by blast+
  from T have K: "\<forall>k. 1 \<le> k \<and> k < 62 \<longrightarrow>
        next_ptr (heap (snd (allocate_chunk 0 ?s)) ! (length (heap ?s) + k)) =
          Some (length (heap ?s) + k + 1)"
    and D: "\<forall>k<64. data (heap (snd (allocate_chunk 0 ?s)) ! (length (heap ?s) + k)) = 0 \<and>
           generation (heap (snd (allocate_chunk 0 ?s)) ! (length (heap ?s) + k)) = 1"
    and R: "fst (allocate_chunk 0 ?s) = length (heap ?s)"
      "length (heap (snd (allocate_chunk 0 ?s))) = length (heap ?s) + 64"
      "head (snd (allocate_chunk 0 ?s)) = Some (length (heap ?s) + 1)"
      "chunk_list (snd (allocate_chunk 0 ?s)) = Some (length (heap ?s) + 63)"
      "storage_count (snd (allocate_chunk 0 ?s)) = storage_count ?s + 64"
    by blast+
  have "next_ptr (heap (snd (allocate_chunk 0 ?s)) ! 61) = Some 62"
    using K [rule_format, of 61] h(2) by simp
  moreover have "generation (heap (snd (allocate_chunk 0 ?s)) ! 63) = 1"
    using D [rule_format, of 63] h(2) by simp
  ultimately show ?thesis
    using F G N R h by simp
qed

text \<open>
  C8. \<^verbatim>\<open>set_check_empty\<close> writes the flag and nothing else, and no operation reads
  it: \<^verbatim>\<open>create\<close>, \<^verbatim>\<open>create_empty\<close>, \<^verbatim>\<open>release\<close> and \<^verbatim>\<open>reset\<close> return the same handle
  or the same error whatever the flag is, and leave the same pool apart from the flag;
  the destructor deletes the same chunks in the same order, or is undefined in the same
  way, with no check for handles that were not retired.
\<close>

theorem C8_set_check_empty:
  "check_empty_flag (set_check_empty flag s) = flag \<and>
   heap (set_check_empty flag s) = heap s \<and>
   storage_count (set_check_empty flag s) = storage_count s \<and>
   head (set_check_empty flag s) = head s \<and>
   chunk_list (set_check_empty flag s) = chunk_list s \<and>
   weak_cas_failures (set_check_empty flag s) = weak_cas_failures s \<and>
   retire_log (set_check_empty flag s) = retire_log s \<and>
   create dflt v (set_check_empty flag s) =
     map_sum id (apsnd (set_check_empty flag)) (create dflt v s) \<and>
   create_empty dflt (set_check_empty flag s) =
     map_sum id (apsnd (set_check_empty flag)) (create_empty dflt s) \<and>
   release clr h (set_check_empty flag s) =
     map_sum id (apsnd (set_check_empty flag)) (release clr h s) \<and>
   reset clr h (set_check_empty flag s) =
     map_sum id (apsnd (set_check_empty flag)) (reset clr h s) \<and>
   ObjectPool_destroy (set_check_empty flag s) = ObjectPool_destroy s"
  by (simp add: create_flag create_empty_flag release_flag reset_flag)
     (simp add: set_check_empty_def ObjectPool_destroy_def)



text \<open>
  C10, as the code has it. In every state reached from a new pool by a sequence of calls,
  the generation of a slot is 1 plus the number of retirements of that slot, as a 32-bit
  value. While a slot has been retired fewer than 2147483647 times its generation is at
  least 1 and differs from the sentinel -1 that a default-constructed or cleared
  Observing Handle stores. An empty Observing Handle reports \<^verbatim>\<open>is_alive()\<close> and
  \<^verbatim>\<open>is_alive_unsafe()\<close> false in every pool state whatever the generations are,
  because both test the slot reference first.
\<close>

theorem C10_generation_and_sentinel:
  "(run clr dflt cs (new_pool fs) = Inr s' \<longrightarrow>
      (\<forall>a<length (heap s').
         generation (heap s' ! a) = 1 + of_nat (retirements a cs) \<and>
         (retirements a cs < 2147483647 \<longrightarrow>
            1 \<le> sint (generation (heap s' ! a)) \<and>
            generation (heap s' ! a) \<noteq> w_generation WeakPtr_default \<and>
            generation (heap s' ! a) \<noteq> w_generation (WeakPtr_clear w)))) \<and>
   w_generation WeakPtr_default = - 1 \<and> w_storage WeakPtr_default = None \<and>
   w_generation (WeakPtr_clear w) = - 1 \<and> w_storage (WeakPtr_clear w) = None \<and>
   sint (w_generation WeakPtr_default) = - 1 \<and>
   (w_storage w = None \<longrightarrow> is_alive w s = Inr False \<and> is_alive_unsafe w s = Inr False) \<and>
   is_alive WeakPtr_default s = Inr False \<and> is_alive_unsafe WeakPtr_default s = Inr False \<and>
   is_alive (WeakPtr_clear w) s = Inr False \<and> is_alive_unsafe (WeakPtr_clear w) s = Inr False"
proof -
  have gens: "generation (heap s' ! a) = 1 + of_nat (retirements a cs) \<and>
         (retirements a cs < 2147483647 \<longrightarrow>
            1 \<le> sint (generation (heap s' ! a)) \<and>
            generation (heap s' ! a) \<noteq> w_generation WeakPtr_default \<and>
            generation (heap s' ! a) \<noteq> w_generation (WeakPtr_clear w))"
    if r: "run clr dflt cs (new_pool fs) = Inr s'" and a: "a < length (heap s')" for a
  proof -
    have g: "generation (heap s' ! a) = 1 + of_nat (retirements a cs)"
      using run_generation [OF r] a by (simp add: new_pool_def)
    have "1 \<le> sint (generation (heap s' ! a)) \<and> generation (heap s' ! a) \<noteq> - 1"
      if n: "retirements a cs < 2147483647"
    proof -
      have s: "sint (generation (heap s' ! a)) = 1 + int (retirements a cs)"
        unfolding g by (rule sint_one_plus [OF n])
      then have "1 \<le> sint (generation (heap s' ! a))" by simp
      moreover have "generation (heap s' ! a) \<noteq> - 1"
      proof
        assume "generation (heap s' ! a) = - 1"
        then have "sint (generation (heap s' ! a)) = - 1" by simp
        with s show False by simp
      qed
      ultimately show ?thesis by simp
    qed
    with g show ?thesis
      by (simp add: WeakPtr_default_def WeakPtr_clear_def)
  qed
  have rest: "w_generation WeakPtr_default = - 1" "w_storage WeakPtr_default = None"
    "w_generation (WeakPtr_clear w) = - 1" "w_storage (WeakPtr_clear w) = None"
    "sint (w_generation WeakPtr_default) = - 1"
    "w_storage w = None \<longrightarrow> is_alive w s = Inr False \<and> is_alive_unsafe w s = Inr False"
    "is_alive WeakPtr_default s = Inr False" "is_alive_unsafe WeakPtr_default s = Inr False"
    "is_alive (WeakPtr_clear w) s = Inr False" "is_alive_unsafe (WeakPtr_clear w) s = Inr False"
    by (simp_all add: WeakPtr_default_def WeakPtr_clear_def is_alive_def is_alive_unsafe_def)
  show ?thesis
    using gens rest by blast
qed

theorem C10_generation_and_sentinel_witness:
  "\<exists>s'. run (\<lambda>d. 0) 0
          [Create 5, Release \<lparr>storage = Some 0, parent = Some ()\<rparr>, Create 7]
          (new_pool [] :: nat ObjectPool) = Inr s' \<and>
        generation (heap s' ! 0) = 2 \<and> 1 \<le> sint (generation (heap s' ! 0)) \<and>
        generation (heap s' ! 0) \<noteq> w_generation WeakPtr_default \<and>
        is_alive WeakPtr_default s' = Inr False \<and>
        is_alive_unsafe (WeakPtr_clear \<lparr>w_generation = 2, w_storage = Some 0\<rparr>) s' = Inr False"
proof -
  let ?h = "\<lparr>storage = Some 0, parent = Some ()\<rparr>"
  let ?clr = "\<lambda>d::nat. 0::nat"
  let ?cs = "[Create 5, Release ?h, Create 7] :: nat command list"
  let ?w = "\<lparr>w_generation = 2, w_storage = Some 0\<rparr>"
  obtain s1 :: "nat ObjectPool" where
    c: "create 0 5 (new_pool []) = Inr (?h, s1)"
    and v: "valid_ptr s1 0" and len: "length (heap s1) = CHUNK_SIZE"
    by (rule first_create)
  have st: "storage ?h = Some 0" by simp
  obtain s2 where r: "release ?clr ?h s1 = Inr (?h\<lparr>storage := None\<rparr>, s2)"
    and s2: "head s2 = Some 0" "valid_ptr s2 0" "length (heap s2) = length (heap s1)"
    by (rule release_facts [OF st v])
  obtain s3 where c3: "create 0 7 s2 = Inr (?h, s3)" and l3: "length (heap s3) = length (heap s2)"
    by (rule create_reuse_facts [OF s2(1,2)])
  have run: "run ?clr 0 ?cs (new_pool []) = Inr s3"
    by (simp add: c r c3)
  have l: "0 < length (heap s3)"
    by (simp add: l3 s2 len CHUNK_SIZE_def)
  have ret: "retirements 0 ?cs = 1"
    by (simp add: retirements_def)
  note T = C10_generation_and_sentinel [where cs = ?cs and clr = ?clr and dflt = 0
      and fs = "[]" and s' = s3 and s = s3 and w = ?w]
  from T run l have "generation (heap s3 ! 0) = 1 + of_nat (retirements 0 ?cs) \<and>
         (retirements 0 ?cs < 2147483647 \<longrightarrow>
            1 \<le> sint (generation (heap s3 ! 0)) \<and>
            generation (heap s3 ! 0) \<noteq> w_generation WeakPtr_default \<and>
            generation (heap s3 ! 0) \<noteq> w_generation (WeakPtr_clear ?w))"
    by blast
  then have A: "generation (heap s3 ! 0) = 2" "1 \<le> sint (generation (heap s3 ! 0))"
    "generation (heap s3 ! 0) \<noteq> w_generation WeakPtr_default"
    unfolding ret by auto
  from T have B: "is_alive WeakPtr_default s3 = Inr False"
    "is_alive_unsafe (WeakPtr_clear ?w) s3 = Inr False"
    by blast+
  show ?thesis
    by (intro exI conjI) (rule run A B)+
qed

text \<open>
  C10 as stated fails when the 32-bit generation wraps around. A client that holds the
  first element of a new pool and recycles it 2147483647 times leaves slot 0 with the
  generation -2147483648; after 4294967294 recyclings the generation of slot 0 is the
  sentinel -1, and a handle that carries the sentinel generation and refers to slot 0
  reports alive.
\<close>

theorem C10_wraparound_counterexample:
  "and_then (create (0::nat) 5 (new_pool []))
     (\<lambda>(h, s1). and_then (recycle 2147483647 (\<lambda>d. 0) 0 7 (h, s1))
        (\<lambda>(h2, s2). Inr (sint (generation (heap s2 ! 0)))))
     = Inr (- 2147483648) \<and>
   and_then (create (0::nat) 5 (new_pool []))
     (\<lambda>(h, s1). and_then (recycle 4294967294 (\<lambda>d. 0) 0 7 (h, s1))
        (\<lambda>(h2, s2). Inr (generation (heap s2 ! 0) = w_generation WeakPtr_default,
            is_alive \<lparr>w_generation = w_generation WeakPtr_default, w_storage = Some 0\<rparr> s2)))
     = Inr (True, Inr True)"
proof -
  let ?h = "\<lparr>storage = Some 0, parent = Some ()\<rparr>"
  obtain s1 :: "nat ObjectPool" where
    c: "create 0 5 (new_pool []) = Inr (?h, s1)"
    and v: "valid_ptr s1 0" and g: "generation (heap s1 ! 0) = 1"
    by (rule first_create)
  have st: "storage ?h = Some 0" by simp
  from recycle_generation [OF st v, of 2147483647 "\<lambda>d. 0" 0 7]
  obtain h2 s2 where rec: "recycle 2147483647 (\<lambda>d. 0) 0 7 (?h, s1) = Inr (h2, s2)"
    and g2: "generation (heap s2 ! 0) = generation (heap s1 ! 0) + of_nat 2147483647"
    by auto
  have "generation (heap s2 ! 0) = 2147483648"
    unfolding g2 g by simp
  then have neg: "sint (generation (heap s2 ! 0)) = - 2147483648"
    by simp
  from recycle_generation [OF st v, of 4294967294 "\<lambda>d. 0" 0 7]
  obtain h3 s3 where rec3: "recycle 4294967294 (\<lambda>d. 0) 0 7 (?h, s1) = Inr (h3, s3)"
    and v3: "valid_ptr s3 0"
    and g3: "generation (heap s3 ! 0) = generation (heap s1 ! 0) + of_nat 4294967294"
    by auto
  have sen: "generation (heap s3 ! 0) = w_generation WeakPtr_default"
    unfolding g3 g by (simp add: WeakPtr_default_def)
  have alive: "is_alive \<lparr>w_generation = w_generation WeakPtr_default, w_storage = Some 0\<rparr> s3 = Inr True"
    using is_alive_valid [of "\<lparr>w_generation = w_generation WeakPtr_default, w_storage = Some 0\<rparr>" 0 s3]
      v3 sen by simp
  show ?thesis
    by (simp only: c and_then_simps prod.case rec rec3 neg sen alive simp_thms)
qed

end
